theory Spec2Isabelle
  imports
    Complex_Main
    "HOL-Library.Word"
    "HOL-Library.Signed_Division"
    "HOL-Library.Monad_Syntax"
begin

section \<open>Conventions of the embedding\<close>

text \<open>
  The development embeds the Monte Carlo core of the 2D Ising simulator
  (\<^verbatim>\<open>LatticeAlgorithms.cpp\<close>, \<^verbatim>\<open>magneto.cpp\<close>) into HOL.

  \<^item> A C++ \<^verbatim>\<open>int\<close> is a HOL \<open>int\<close>. Signed overflow is undefined in C++, so the
    model speaks about the executions in which no \<^verbatim>\<open>int\<close> operation overflows; the
    one place where a size is computed from the coupling, the exponential table, has the
    32-bit wrap-around written out (\<open>int32\<close>).
    The C++ remainder \<^verbatim>\<open>%\<close> truncates towards zero: it is \<open>smod\<close>.
  \<^item> A C++ \<^verbatim>\<open>double\<close> is a HOL \<open>real\<close>: arithmetic, \<^verbatim>\<open>exp\<close> and comparisons are
    the exact ones (no rounding, no infinities, no NaN). The variance estimator is
    modelled a second time over the values of the double format (\<open>double\<close>), where
    overflow to infinity and NaN are visible.
  \<^item> A \<^verbatim>\<open>char\<close> is an \<open>8 word\<close>; \<^verbatim>\<open>c *= -1\<close> is the negation of the word.
  \<^item> \<^verbatim>\<open>std::vector\<close> is a list. The subscript operator of a vector has undefined
    behaviour out of range: every subscript of the source is a checked access of the
    model, and a function that would subscript out of range returns \<open>None\<close>.
  \<^item> The contents of the random buffers are inputs of the model: the source fills
    them from a generator that is seeded from the clock.
\<close>

section \<open>Vectors with checked subscripts\<close>

definition at1 :: "'a list \<Rightarrow> int \<Rightarrow> 'a option" where
  "at1 xs i = (if 0 \<le> i \<and> i < int (length xs) then Some (xs ! nat i) else None)"

definition at2 :: "'a list list \<Rightarrow> int \<Rightarrow> int \<Rightarrow> 'a option" where
  "at2 g x y = do { row \<leftarrow> at1 g x; at1 row y }"

definition put2 :: "'a list list \<Rightarrow> int \<Rightarrow> int \<Rightarrow> 'a \<Rightarrow> 'a list list option" where
  "put2 g x y v = do {
     row \<leftarrow> at1 g x;
     _ \<leftarrow> at1 row y;
     Some (g[nat x := row[nat y := v]])
   }"

text \<open>\<^verbatim>\<open>for (auto x : xs) body\<close>, threading the state and stopping at the first
  undefined step.\<close>

fun for_each :: "'a list \<Rightarrow> ('a \<Rightarrow> 's \<Rightarrow> 's option) \<Rightarrow> 's \<Rightarrow> 's option" where
  "for_each [] body s = Some s"
| "for_each (x # xs) body s = do { s' \<leftarrow> body x s; for_each xs body s' }"

section \<open>Statistics of a run (\<^verbatim>\<open>magneto.cpp\<close>)\<close>










subsection \<open>The same estimator over the double format\<close>

text \<open>A value of a \<^verbatim>\<open>double\<close>: a finite number, an infinity or NaN. The rounding of the
  format is the parameter \<open>rnd\<close> of every operation (round to nearest with an unbounded
  exponent: it covers the rounding of the mantissa and gradual underflow); a result
  whose rounded magnitude exceeds \<open>DBL_MAX\<close> is an infinity. Zero has no sign here: the
  sign of a zero only shows in a division of a nonzero number by zero, which takes the
  sign of the numerator, as for \<open>+0\<close>.\<close>

datatype double = Finite real | PlusInf | MinusInf | NaN

definition DBL_MAX :: real where
  "DBL_MAX = (2 - 1 / 2 ^ 52) * 2 ^ 1023"

definition to_double :: "(real \<Rightarrow> real) \<Rightarrow> real \<Rightarrow> double" where
  "to_double rnd x =
     (let r = rnd x
      in if DBL_MAX < r then PlusInf else if r < - DBL_MAX then MinusInf else Finite r)"

fun dneg :: "double \<Rightarrow> double" where
  "dneg (Finite x) = Finite (- x)"
| "dneg PlusInf = MinusInf"
| "dneg MinusInf = PlusInf"
| "dneg NaN = NaN"

fun dadd :: "(real \<Rightarrow> real) \<Rightarrow> double \<Rightarrow> double \<Rightarrow> double" where
  "dadd rnd (Finite x) (Finite y) = to_double rnd (x + y)"
| "dadd rnd NaN b = NaN"
| "dadd rnd a NaN = NaN"
| "dadd rnd PlusInf MinusInf = NaN"
| "dadd rnd MinusInf PlusInf = NaN"
| "dadd rnd PlusInf b = PlusInf"
| "dadd rnd a PlusInf = PlusInf"
| "dadd rnd MinusInf b = MinusInf"
| "dadd rnd a MinusInf = MinusInf"

definition dsub :: "(real \<Rightarrow> real) \<Rightarrow> double \<Rightarrow> double \<Rightarrow> double" where
  "dsub rnd a b = dadd rnd a (dneg b)"

text \<open>The sign of a value: \<open>1\<close>, \<open>-1\<close>, or \<open>0\<close> for zero and NaN.\<close>

fun dsgn :: "double \<Rightarrow> real" where
  "dsgn (Finite x) = sgn x"
| "dsgn PlusInf = 1"
| "dsgn MinusInf = - 1"
| "dsgn NaN = 0"

definition signed_inf :: "real \<Rightarrow> double" where
  "signed_inf s = (if s = 0 then NaN else if 0 < s then PlusInf else MinusInf)"

fun dmul :: "(real \<Rightarrow> real) \<Rightarrow> double \<Rightarrow> double \<Rightarrow> double" where
  "dmul rnd (Finite x) (Finite y) = to_double rnd (x * y)"
| "dmul rnd NaN b = NaN"
| "dmul rnd a NaN = NaN"
| "dmul rnd a b = signed_inf (dsgn a * dsgn b)"

fun ddiv :: "(real \<Rightarrow> real) \<Rightarrow> double \<Rightarrow> double \<Rightarrow> double" where
  "ddiv rnd (Finite x) (Finite y) = (if y = 0 then signed_inf (sgn x) else to_double rnd (x / y))"
| "ddiv rnd NaN b = NaN"
| "ddiv rnd a NaN = NaN"
| "ddiv rnd (Finite x) b = Finite 0"
| "ddiv rnd a (Finite y) = signed_inf (dsgn a * (if y < 0 then - 1 else 1))"
| "ddiv rnd a b = NaN"

text \<open>\<^verbatim>\<open>get_mean<double>\<close>, \<^verbatim>\<open>get_squared_mean<double>\<close> and \<^verbatim>\<open>get_variance\<close> with these
  operations. The size of the vector is an \<^verbatim>\<open>int\<close>; its conversion to \<^verbatim>\<open>double\<close> is
  exact. Each operation of the source is one operation here: the subtraction and the
  product of \<^verbatim>\<open>get_variance\<close> are not fused.\<close>

definition get_mean_double :: "(real \<Rightarrow> real) \<Rightarrow> double list \<Rightarrow> double" where
  "get_mean_double rnd values =
     (let sum = foldl (\<lambda>init elem. dadd rnd init elem) (Finite 0) values
      in ddiv rnd sum (Finite (real_of_int (int (length values)))))"

definition get_squared_mean_double :: "(real \<Rightarrow> real) \<Rightarrow> double list \<Rightarrow> double" where
  "get_squared_mean_double rnd values =
     (let square_op = (\<lambda>init elem. dadd rnd init (dmul rnd elem elem));
          sum = foldl square_op (Finite 0) values
      in ddiv rnd sum (Finite (real_of_int (int (length values)))))"

definition get_variance_double :: "(real \<Rightarrow> real) \<Rightarrow> double list \<Rightarrow> double" where
  "get_variance_double rnd values =
     (let mean = get_mean_double rnd values
      in dsub rnd (get_squared_mean_double rnd values) (dmul rnd mean mean))"

subsection \<open>Aggregation of the measurements\<close>







section \<open>The exponential cache (\<^verbatim>\<open>LatticeAlgorithms.cpp\<close>)\<close>

text \<open>The value that a 32-bit \<^verbatim>\<open>int\<close> holds after an operation with the mathematical
  result \<open>x\<close>: \<open>x\<close> itself when it fits, and the two's-complement wrap-around that the
  compilers of the target produce when it does not.\<close>

definition int32 :: "int \<Rightarrow> int" where
  "int32 x = (x + 2147483648) mod 4294967296 - 2147483648"

text \<open>\<^verbatim>\<open>get_exp_buffer_offset\<close>: \<open>8\<bar>J\<bar>\<close>, exact for \<open>\<bar>J\<bar> < 2\<^sup>2\<^sup>8\<close>.\<close>

definition get_exp_buffer_offset :: "int \<Rightarrow> int" where
  "get_exp_buffer_offset J = (if J > 0 then 8 * J else - 8 * J)"

text \<open>\<^verbatim>\<open>get_cached_exp_values\<close>: the number of entries is the \<^verbatim>\<open>int\<close>
  \<^verbatim>\<open>max_value - min_value + 1\<close>.\<close>

definition get_cached_exp_values :: "int \<Rightarrow> real \<Rightarrow> real list" where
  "get_cached_exp_values J T =
     (let min_value = int32 (- 8 * J);
          max_value = int32 (8 * J);
          value_count = int32 (int32 (max_value - min_value) + 1);
          buffer_offset = get_exp_buffer_offset J
      in map (\<lambda>dE. exp (real_of_int (- (dE - buffer_offset)) / T)) [0..value_count - 1])"

section \<open>Job dispatch (\<^verbatim>\<open>magneto.cpp\<close>)\<close>

datatype Algorithm = Metropolis | SW

datatype TempStartMode = Single | Many | Image

datatype ImageOrMovie = Movie | Intervals

datatype Imager = MovieWriter | IntervalWriter

record ImageMode =
  m_mode :: ImageOrMovie

record Job =
  m_L :: nat
  m_algorithm :: Algorithm
  m_temp_mode :: TempStartMode
  m_t_single :: real
  m_t_min :: real
  m_t_max :: real
  m_temp_steps :: int
  m_n :: nat
  m_start_runs :: nat
  m_image_mode :: ImageMode

text \<open>What one call of \<^verbatim>\<open>get_physical_results<TAlg, TImager>\<close> does to the lattice, as
  the sequence of engine runs it performs: the engines of the warmup loop, then the
  engines of the main iterations, with the writer that takes the snapshots. Both loops
  count from 1 with an unsigned counter.\<close>

record EngineRuns =
  run_temp :: real
  warmup_runs :: "Algorithm list"
  main_runs :: "Algorithm list"
  image_writer :: Imager

definition get_physical_results :: "Algorithm \<Rightarrow> Imager \<Rightarrow> real \<Rightarrow> Job \<Rightarrow> EngineRuns" where
  "get_physical_results TAlg TImager T job =
     \<lparr>run_temp = T,
      warmup_runs = replicate (m_start_runs job - 1) SW,
      main_runs = replicate (m_n job - 1) TAlg,
      image_writer = TImager\<rparr>"

fun get_temps_loop :: "nat \<Rightarrow> real \<Rightarrow> real \<Rightarrow> real list" where
  "get_temps_loop 0 temperature temperature_step = []"
| "get_temps_loop (Suc k) temperature temperature_step =
     temperature # get_temps_loop k (temperature + temperature_step) temperature_step"

definition get_temps :: "real \<Rightarrow> real \<Rightarrow> int \<Rightarrow> real list" where
  "get_temps tmin tmax n =
     (let temperature = tmin;
          temperature_step = (tmax - tmin) / real_of_int (n - 1)
      in get_temps_loop (nat n) temperature temperature_step)"

text \<open>\<^verbatim>\<open>run_job<TAlg, TImager>(temps, job)\<close>: one result per temperature.\<close>

definition run_job_temps :: "Algorithm \<Rightarrow> Imager \<Rightarrow> real list \<Rightarrow> Job \<Rightarrow> EngineRuns list" where
  "run_job_temps TAlg TImager temps job = map (\<lambda>t. get_physical_results TAlg TImager t job) temps"

text \<open>\<^verbatim>\<open>run_job<TAlg, TImager>(job)\<close>.\<close>

definition run_job_alg_imager :: "Algorithm \<Rightarrow> Imager \<Rightarrow> Job \<Rightarrow> EngineRuns list" where
  "run_job_alg_imager TAlg TImager job =
     (if m_temp_mode job = Image then []
      else if m_temp_mode job = Many then
        (let stepped_temps = get_temps (m_t_min job) (m_t_max job) (m_temp_steps job)
         in run_job_temps TAlg TImager stepped_temps job)
      else if m_temp_mode job = Single then run_job_temps TAlg TImager [m_t_single job] job
      else [])"

text \<open>\<^verbatim>\<open>run_job<TAlg>(job)\<close>: both branches instantiate the two-parameter overload
  with \<^verbatim>\<open>magneto::Metropolis\<close>; the parameter \<^verbatim>\<open>TAlg\<close> does not occur in the body.\<close>

definition run_job_alg :: "Algorithm \<Rightarrow> Job \<Rightarrow> EngineRuns list" where
  "run_job_alg TAlg job =
     (if m_mode (m_image_mode job) = Movie then run_job_alg_imager Metropolis MovieWriter job
      else if m_mode (m_image_mode job) = Intervals then
        run_job_alg_imager Metropolis IntervalWriter job
      else [])"

definition run_job :: "Job \<Rightarrow> EngineRuns list" where
  "run_job job =
     (if m_algorithm job = Metropolis then run_job_alg Metropolis job
      else run_job_alg SW job)"

section \<open>Lattices\<close>

text \<open>\<^verbatim>\<open>LatticeType\<close> is a vector of vectors of \<^verbatim>\<open>char\<close> (\<^verbatim>\<open>SW::run\<close> assigns
  \<^verbatim>\<open>std::vector<char>\<close> rows to its \<^verbatim>\<open>LatticeType\<close> locals); the index buffer holds pairs
  of \<^verbatim>\<open>int\<close>.\<close>

type_synonym LatticeType = "8 word list list"

type_synonym IndexPairVector = "(int \<times> int) list"

text \<open>Modelled from the spec: \<^verbatim>\<open>get_dE\<close> is declared in \<^verbatim>\<open>IsingSystem.h\<close> and defined in a
  file that is not part of the sources. The specification describes it as the standard
  nearest-neighbour Ising delta over the four periodic neighbours, an integer in
  \<open>[-8, 8]\<close>: twice the spin times the sum of its four neighbours. The engines below take
  the energy function as a parameter; this one only instantiates them.\<close>

definition get_dE :: "LatticeType \<Rightarrow> int \<Rightarrow> int \<Rightarrow> int option" where
  "get_dE grid i j = do {
     let L = int (length grid);
     here \<leftarrow> at2 grid i j;
     n1 \<leftarrow> at2 grid i ((j + 1) smod L);
     n2 \<leftarrow> at2 grid ((i + 1) smod L) j;
     n3 \<leftarrow> at2 grid i ((j - 1 + L) smod L);
     n4 \<leftarrow> at2 grid ((i - 1 + L) smod L) j;
     Some (2 * sint here * (sint n1 + sint n2 + sint n3 + sint n4))
   }"

section \<open>The Metropolis engine (\<^verbatim>\<open>LatticeAlgorithms.cpp\<close>)\<close>

text \<open>The members of \<^verbatim>\<open>magneto::Metropolis\<close>. The two buffers are the batches that
  \<^verbatim>\<open>get_buffer()\<close> returns during one run.\<close>

record Metropolis_engine =
  m_cached_exp_values :: "real list"
  m_J :: int
  m_lattice_index_buffer :: IndexPairVector
  m_random_buffer :: "real list"

text \<open>The constructor: the table is \<^verbatim>\<open>get_cached_exp_values(J, T)\<close>; the generators
  fill the buffers.\<close>

definition Metropolis_new :: "int \<Rightarrow> real \<Rightarrow> IndexPairVector \<Rightarrow> real list \<Rightarrow> Metropolis_engine" where
  "Metropolis_new J T lattice_indices randoms =
     \<lparr>m_cached_exp_values = get_cached_exp_values J T,
      m_J = J,
      m_lattice_index_buffer = lattice_indices,
      m_random_buffer = randoms\<rparr>"

text \<open>One iteration of the loop of \<^verbatim>\<open>Metropolis::run\<close>, at loop index \<open>i\<close>. The energy
  function \<^verbatim>\<open>get_dE\<close> is the parameter \<open>dE_fun\<close>. The right operand of \<^verbatim>\<open>||\<close> is only
  evaluated when \<open>dE > 0\<close>.\<close>

definition Metropolis_proposal ::
  "Metropolis_engine \<Rightarrow> (LatticeType \<Rightarrow> int \<Rightarrow> int \<Rightarrow> int option) \<Rightarrow> int \<Rightarrow> LatticeType
     \<Rightarrow> LatticeType option" where
  "Metropolis_proposal e dE_fun i lattice = do {
     let buffer_offset = get_exp_buffer_offset (m_J e);
     flip \<leftarrow> at1 (m_lattice_index_buffer e) i;
     let flip_i = fst flip;
     let flip_j = snd flip;
     g \<leftarrow> dE_fun lattice flip_i flip_j;
     let dE = m_J e * g;
     accept \<leftarrow> (if dE \<le> 0 then Some True
                else do {
                  u \<leftarrow> at1 (m_random_buffer e) i;
                  c \<leftarrow> at1 (m_cached_exp_values e) (dE + buffer_offset);
                  Some (u < c)
                });
     if accept then do {
       s \<leftarrow> at2 lattice flip_i flip_j;
       put2 lattice flip_i flip_j (s * (- 1))
     } else Some lattice
   }"

text \<open>\<^verbatim>\<open>Metropolis::run\<close>: the loop runs over the indices of the random buffer. The two
  \<^verbatim>\<open>refill()\<close> calls at the end replace the buffers for the next run and do not touch the
  lattice.\<close>

definition Metropolis_run ::
  "Metropolis_engine \<Rightarrow> (LatticeType \<Rightarrow> int \<Rightarrow> int \<Rightarrow> int option) \<Rightarrow> LatticeType
     \<Rightarrow> LatticeType option" where
  "Metropolis_run e dE_fun lattice =
     for_each [0..int (length (m_random_buffer e)) - 1] (Metropolis_proposal e dE_fun) lattice"

section \<open>The Swendsen-Wang engine (\<^verbatim>\<open>LatticeAlgorithms.cpp\<close>)\<close>

text \<open>The members of \<^verbatim>\<open>magneto::SW\<close>, with the current batch of each buffer.\<close>

record SW_engine =
  m_J :: int
  m_T :: real
  m_bond_north_buffer :: "real list"
  m_bond_east_buffer :: "real list"
  m_flip_buffer :: "real list"

text \<open>\<^verbatim>\<open>1.0 - exp(-2.0f * m_J / m_T)\<close>.\<close>

definition freezeProbability :: "SW_engine \<Rightarrow> real" where
  "freezeProbability e = 1 - exp (- 2 * real_of_int (SW_engine.m_J e) / m_T e)"

text \<open>The body of the first pair of loops, at site \<open>(i, j)\<close>: the state is the two bond
  arrays and \<^verbatim>\<open>counter\<close>. A \<^verbatim>\<open>bool\<close> stored in a \<^verbatim>\<open>char\<close> is 1 or 0.\<close>

definition SW_bond_site ::
  "SW_engine \<Rightarrow> int \<Rightarrow> int \<Rightarrow> LatticeType \<times> LatticeType \<times> int
     \<Rightarrow> (LatticeType \<times> LatticeType \<times> int) option" where
  "SW_bond_site e i j = (\<lambda>(doesBondNorth, doesBondEast, counter). do {
     rn \<leftarrow> at1 (m_bond_north_buffer e) counter;
     doesBondNorth' \<leftarrow> put2 doesBondNorth i j (of_bool (rn < freezeProbability e));
     re \<leftarrow> at1 (m_bond_east_buffer e) counter;
     doesBondEast' \<leftarrow> put2 doesBondEast i j (of_bool (re < freezeProbability e));
     Some (doesBondNorth', doesBondEast', counter + 1)
   })"

text \<open>The first phase of \<^verbatim>\<open>SW::run\<close> for a lattice of side \<open>L\<close>: both arrays start as
  \<open>L\<close> rows of \<open>L\<close> zeros.\<close>

definition SW_bonds :: "SW_engine \<Rightarrow> int \<Rightarrow> (LatticeType \<times> LatticeType) option" where
  "SW_bonds e L = do {
     let doesBondNorth = replicate (nat L) (replicate (nat L) 0);
     let doesBondEast = replicate (nat L) (replicate (nat L) 0);
     (doesBondNorth', doesBondEast', _) \<leftarrow>
       for_each [0..L - 1] (\<lambda>i. for_each [0..L - 1] (\<lambda>j. SW_bond_site e i j))
         (doesBondNorth, doesBondEast, 0);
     Some (doesBondNorth', doesBondEast')
   }"

text \<open>The four neighbour tests of the traversal, in the order of the source: the
  neighbour \<^verbatim>\<open>(nx, ny)\<close>, the bond array that is read and the index at which it is read
  (\<^verbatim>\<open>doesBondNorth[x][y]\<close>, \<^verbatim>\<open>doesBondEast[x][y]\<close>, \<^verbatim>\<open>doesBondNorth[x][ny]\<close>,
  \<^verbatim>\<open>doesBondEast[nx][y]\<close>).\<close>

datatype Bond = BondNorth | BondEast

definition SW_neighbours :: "int \<Rightarrow> int \<Rightarrow> int \<Rightarrow> ((int \<times> int) \<times> Bond \<times> (int \<times> int)) list" where
  "SW_neighbours L x y =
     [((x, (y + 1) smod L), BondNorth, (x, y)),
      (((x + 1) smod L, y), BondEast, (x, y)),
      ((x, (y - 1 + L) smod L), BondNorth, (x, (y - 1 + L) smod L)),
      (((x - 1 + L) smod L, y), BondEast, ((x - 1 + L) smod L, y))]"

text \<open>The variables of the second phase: the lattice, \<^verbatim>\<open>discovered\<close>, the deque of the
  cluster under construction and \<^verbatim>\<open>counter\<close>. Two ghost fields record events and are
  never read by the algorithm: \<open>discovery_log\<close> gets a site whenever it is put into a
  deque (each time \<^verbatim>\<open>discovered[..][..] = 1\<close> is executed), \<open>flip_log\<close> gets a site whenever
  \<^verbatim>\<open>lattice[x][y] *= -1\<close> is executed.\<close>

record SW_state =
  lattice :: LatticeType
  discovered :: LatticeType
  deq :: "(int \<times> int) list"
  counter :: int
  discovery_log :: "(int \<times> int) list"
  flip_log :: "(int \<times> int) list"

text \<open>Reading a bond array at an index.\<close>

definition bond_flag :: "LatticeType \<Rightarrow> LatticeType \<Rightarrow> Bond \<Rightarrow> int \<times> int \<Rightarrow> 8 word option" where
  "bond_flag doesBondNorth doesBondEast bond b =
     at2 (case bond of BondNorth \<Rightarrow> doesBondNorth | BondEast \<Rightarrow> doesBondEast) (fst b) (snd b)"

text \<open>One neighbour test for the site \<open>xy\<close> at the front of the deque:
  \<^verbatim>\<open>if (lattice[x][y] == lattice[nx][ny] && discovered[nx][ny] == 0 && bond) { push_back;
  discovered[nx][ny] = 1; }\<close>, with the operands of \<^verbatim>\<open>&&\<close> evaluated from left to right.\<close>

definition SW_visit ::
  "LatticeType \<Rightarrow> LatticeType \<Rightarrow> int \<times> int \<Rightarrow> (int \<times> int) \<times> Bond \<times> (int \<times> int)
     \<Rightarrow> SW_state \<Rightarrow> SW_state option" where
  "SW_visit doesBondNorth doesBondEast xy probe st = do {
     let n = fst probe;
     here \<leftarrow> at2 (lattice st) (fst xy) (snd xy);
     there \<leftarrow> at2 (lattice st) (fst n) (snd n);
     if here = there then do {
       d \<leftarrow> at2 (discovered st) (fst n) (snd n);
       if d = 0 then do {
         b \<leftarrow> bond_flag doesBondNorth doesBondEast (fst (snd probe)) (snd (snd probe));
         if b \<noteq> 0 then do {
           discovered' \<leftarrow> put2 (discovered st) (fst n) (snd n) 1;
           Some (st\<lparr>deq := deq st @ [n], discovered := discovered',
                    discovery_log := discovery_log st @ [n]\<rparr>)
         } else Some st
       } else Some st
     } else Some st
   }"

text \<open>One iteration of the \<^verbatim>\<open>while (!deq.empty())\<close> loop: the four tests for the front
  site, the flip of the front site when the cluster flips, \<^verbatim>\<open>pop_front\<close>.\<close>

definition SW_front ::
  "int \<Rightarrow> LatticeType \<Rightarrow> LatticeType \<Rightarrow> bool \<Rightarrow> SW_state \<Rightarrow> SW_state option" where
  "SW_front L doesBondNorth doesBondEast flipCluster st =
     (case deq st of
        [] \<Rightarrow> None
      | xy # _ \<Rightarrow> do {
          st1 \<leftarrow> for_each (SW_neighbours L (fst xy) (snd xy))
                   (SW_visit doesBondNorth doesBondEast xy) st;
          st2 \<leftarrow> (if flipCluster then do {
                     s \<leftarrow> at2 (lattice st1) (fst xy) (snd xy);
                     lattice' \<leftarrow> put2 (lattice st1) (fst xy) (snd xy) (s * (- 1));
                     Some (st1\<lparr>lattice := lattice', flip_log := flip_log st1 @ [xy]\<rparr>)
                   } else Some st1);
          Some (st2\<lparr>deq := tl (deq st2)\<rparr>)
        })"

text \<open>The number of zero entries of \<^verbatim>\<open>discovered\<close>; together with the length of the deque
  it bounds the remaining iterations of the \<^verbatim>\<open>while\<close> loop.\<close>

definition undiscovered :: "LatticeType \<Rightarrow> nat" where
  "undiscovered d = sum_list (map (\<lambda>row. length (filter (\<lambda>c. c = 0) row)) d)"

section \<open>Termination of the cluster traversal\<close>

lemma at1_SomeD: "at1 xs i = Some v \<Longrightarrow> 0 \<le> i \<and> nat i < length xs \<and> xs ! nat i = v"
  by (simp add: at1_def split: if_splits)

lemma at1_Some_iff: "at1 xs i = Some v \<longleftrightarrow> 0 \<le> i \<and> nat i < length xs \<and> xs ! nat i = v"
  by (auto simp add: at1_def)

lemma at2_Some_iff:
  "at2 g x y = Some v \<longleftrightarrow>
     0 \<le> x \<and> nat x < length g \<and> 0 \<le> y \<and> nat y < length (g ! nat x) \<and> g ! nat x ! nat y = v"
  by (auto simp add: at2_def at1_Some_iff bind_eq_Some_conv)

lemma put2_Some_iff:
  "put2 g x y v = Some g' \<longleftrightarrow>
     0 \<le> x \<and> nat x < length g \<and> 0 \<le> y \<and> nat y < length (g ! nat x)
     \<and> g' = g[nat x := (g ! nat x)[nat y := v]]"
  by (auto simp add: put2_def at1_Some_iff bind_eq_Some_conv)

lemma undiscovered_row:
  "j < length row \<Longrightarrow> row ! j = 0 \<Longrightarrow>
     Suc (length (filter (\<lambda>c. c = 0) (row[j := (1::8 word)]))) = length (filter (\<lambda>c. c = 0) row)"
proof (induction row arbitrary: j)
  case Nil
  then show ?case by simp
next
  case (Cons a row)
  then show ?case by (cases j) simp_all
qed

lemma sum_list_update_row:
  fixes f :: "'a \<Rightarrow> nat"
  assumes "i < length d" and "Suc (f r) = f (d ! i)"
  shows "Suc (sum_list (map f (d[i := r]))) = sum_list (map f d)"
  using assms
proof (induction d arbitrary: i)
  case Nil
  then show ?case by simp
next
  case (Cons a d)
  then show ?case by (cases i) simp_all
qed

lemma undiscovered_put2:
  assumes "at2 d x y = Some 0" and "put2 d x y 1 = Some d'"
  shows "Suc (undiscovered d') = undiscovered d"
proof -
  from assms(1) have x: "nat x < length d" and y: "nat y < length (d ! nat x)"
    and z: "d ! nat x ! nat y = 0"
    by (simp_all add: at2_Some_iff)
  from assms(2) have d': "d' = d[nat x := (d ! nat x)[nat y := 1]]"
    by (simp add: put2_Some_iff)
  show ?thesis
    unfolding undiscovered_def d'
    by (rule sum_list_update_row [OF x]) (rule undiscovered_row [OF y z])
qed

lemma SW_visit_cases:
  assumes "SW_visit bn be xy probe st = Some st'"
  shows "st' = st \<or>
    (\<exists>d'. at2 (discovered st) (fst (fst probe)) (snd (fst probe)) = Some 0
        \<and> put2 (discovered st) (fst (fst probe)) (snd (fst probe)) 1 = Some d'
        \<and> st' = st\<lparr>deq := deq st @ [fst probe], discovered := d',
                    discovery_log := discovery_log st @ [fst probe]\<rparr>)"
  using assms
  by (auto simp: SW_visit_def Let_def bind_eq_Some_conv split: if_splits)

lemma SW_visit_measure:
  assumes "SW_visit bn be xy probe st = Some st'"
  shows "undiscovered (discovered st') + length (deq st') = undiscovered (discovered st) + length (deq st)"
  using SW_visit_cases [OF assms]
proof (elim disjE exE conjE)
  assume "st' = st"
  then show ?thesis by simp
next
  fix d'
  assume a: "at2 (discovered st) (fst (fst probe)) (snd (fst probe)) = Some 0"
    and p: "put2 (discovered st) (fst (fst probe)) (snd (fst probe)) 1 = Some d'"
    and st': "st' = st\<lparr>deq := deq st @ [fst probe], discovered := d',
                    discovery_log := discovery_log st @ [fst probe]\<rparr>"
  have "Suc (undiscovered d') = undiscovered (discovered st)"
    using a p by (rule undiscovered_put2)
  then show ?thesis by (simp add: st')
qed

lemma for_each_invariant:
  assumes "for_each xs body s = Some s'" and "I s"
    and "\<And>x s s'. x \<in> set xs \<Longrightarrow> I s \<Longrightarrow> body x s = Some s' \<Longrightarrow> I s'"
  shows "I s'"
  using assms
proof (induction xs arbitrary: s)
  case Nil
  then show ?case by simp
next
  case (Cons x xs)
  from Cons.prems(1) obtain s1 where 1: "body x s = Some s1" and 2: "for_each xs body s1 = Some s'"
    by (auto simp: bind_eq_Some_conv)
  have "I s1" using Cons.prems(2) 1 by (rule Cons.prems(3) [of x, simplified])
  show ?case
  proof (rule Cons.IH [OF 2 \<open>I s1\<close>])
    fix y t t'
    assume "y \<in> set xs" and "I t" and "body y t = Some t'"
    then show "I t'" using Cons.prems(3) [of y t t'] by simp
  qed
qed

lemma SW_visit_deq_nonempty:
  assumes "SW_visit bn be xy probe st = Some st'" and "deq st \<noteq> []"
  shows "deq st' \<noteq> []"
  using SW_visit_cases [OF assms(1)] assms(2) by auto

lemma SW_front_cases:
  assumes "SW_front L bn be flipCluster st = Some st'"
  shows "\<exists>xy rest st1 st2. deq st = xy # rest
    \<and> for_each (SW_neighbours L (fst xy) (snd xy)) (SW_visit bn be xy) st = Some st1
    \<and> (if flipCluster
        then \<exists>s lattice'. at2 (lattice st1) (fst xy) (snd xy) = Some s
               \<and> put2 (lattice st1) (fst xy) (snd xy) (- s) = Some lattice'
               \<and> st2 = st1\<lparr>lattice := lattice', flip_log := flip_log st1 @ [xy]\<rparr>
        else st2 = st1)
    \<and> st' = st2\<lparr>deq := tl (deq st2)\<rparr>"
proof (cases "deq st")
  case Nil
  then show ?thesis using assms by (simp add: SW_front_def)
next
  case (Cons xy rest)
  then show ?thesis using assms
    by (cases flipCluster) (auto simp: SW_front_def bind_eq_Some_conv)
qed

lemma SW_front_measure:
  assumes "SW_front L bn be flipCluster st = Some st'"
  shows "undiscovered (discovered st') + length (deq st') < undiscovered (discovered st) + length (deq st)"
proof -
  from SW_front_cases [OF assms] obtain xy rest st1 st2 where q: "deq st = xy # rest"
    and 1: "for_each (SW_neighbours L (fst xy) (snd xy)) (SW_visit bn be xy) st = Some st1"
    and 2: "if flipCluster
        then \<exists>s lattice'. at2 (lattice st1) (fst xy) (snd xy) = Some s
               \<and> put2 (lattice st1) (fst xy) (snd xy) (- s) = Some lattice'
               \<and> st2 = st1\<lparr>lattice := lattice', flip_log := flip_log st1 @ [xy]\<rparr>
        else st2 = st1"
    and 3: "st' = st2\<lparr>deq := tl (deq st2)\<rparr>"
    by blast
  have 4: "discovered st2 = discovered st1" "deq st2 = deq st1"
    using 2 by (auto split: if_splits)
  have m: "undiscovered (discovered st1) + length (deq st1) = undiscovered (discovered st) + length (deq st)"
    by (rule for_each_invariant [OF 1, of "\<lambda>s. undiscovered (discovered s) + length (deq s)
          = undiscovered (discovered st) + length (deq st)"])
       (simp_all add: SW_visit_measure)
  have "deq st1 \<noteq> []"
    by (rule for_each_invariant [OF 1, of "\<lambda>s. deq s \<noteq> []"])
       (simp_all add: q SW_visit_deq_nonempty)
  then show ?thesis using m 3 4 by (cases "deq st1") auto
qed

text \<open>The \<^verbatim>\<open>while (!deq.empty())\<close> loop.\<close>

function SW_cluster ::
  "int \<Rightarrow> LatticeType \<Rightarrow> LatticeType \<Rightarrow> bool \<Rightarrow> SW_state \<Rightarrow> SW_state option" where
  "SW_cluster L doesBondNorth doesBondEast flipCluster st =
     (if deq st = [] then Some st
      else case SW_front L doesBondNorth doesBondEast flipCluster st of
             None \<Rightarrow> None
           | Some st' \<Rightarrow> SW_cluster L doesBondNorth doesBondEast flipCluster st')"
  by pat_completeness auto
termination
proof (relation "measure (\<lambda>(L, bn, be, f, st). undiscovered (discovered st) + length (deq st))")
  show "wf (measure (\<lambda>(L, bn, be, f, st). undiscovered (discovered st) + length (deq st)))"
    by simp
next
  fix L :: int and doesBondNorth doesBondEast :: LatticeType and flipCluster st x2
  assume "deq st \<noteq> []" and "SW_front L doesBondNorth doesBondEast flipCluster st = Some x2"
  then show "((L, doesBondNorth, doesBondEast, flipCluster, x2), L, doesBondNorth, doesBondEast,
        flipCluster, st)
       \<in> measure (\<lambda>(L, bn, be, f, st). undiscovered (discovered st) + length (deq st))"
    by (simp add: SW_front_measure)
qed

text \<open>The body of the second pair of loops, at site \<open>(i, j)\<close>: an undiscovered site draws
  the coin of its cluster from the flip buffer at \<^verbatim>\<open>counter\<close>, starts a deque with itself
  and runs the traversal; \<^verbatim>\<open>counter\<close> advances for every site.\<close>

definition SW_site ::
  "SW_engine \<Rightarrow> int \<Rightarrow> LatticeType \<Rightarrow> LatticeType \<Rightarrow> int \<Rightarrow> int \<Rightarrow> SW_state \<Rightarrow> SW_state option" where
  "SW_site e L doesBondNorth doesBondEast i j st = do {
     d \<leftarrow> at2 (discovered st) i j;
     st' \<leftarrow> (if d = 0 then do {
                r \<leftarrow> at1 (m_flip_buffer e) (counter st);
                let flipCluster = (r < 0.5);
                discovered' \<leftarrow> put2 (discovered st) i j 1;
                SW_cluster L doesBondNorth doesBondEast flipCluster
                  (st\<lparr>deq := [(i, j)], discovered := discovered',
                      discovery_log := discovery_log st @ [(i, j)]\<rparr>)
              } else Some st);
     Some (st'\<lparr>counter := counter st' + 1\<rparr>)
   }"

text \<open>\<^verbatim>\<open>SW::run\<close>, returning the final state with its ghost logs; \<open>SW_run\<close> is the
  lattice it leaves. The three \<^verbatim>\<open>refill()\<close> calls at the end replace the buffers for the
  next run and do not touch the lattice.\<close>

definition SW_run_state :: "SW_engine \<Rightarrow> LatticeType \<Rightarrow> SW_state option" where
  "SW_run_state e lattice0 = do {
     let L = int (length lattice0);
     (doesBondNorth, doesBondEast) \<leftarrow> SW_bonds e L;
     for_each [0..L - 1]
       (\<lambda>i. for_each [0..L - 1] (\<lambda>j. SW_site e L doesBondNorth doesBondEast i j))
       \<lparr>lattice = lattice0, discovered = replicate (nat L) (replicate (nat L) 0), deq = [],
        counter = 0, discovery_log = [], flip_log = []\<rparr>
   }"

definition SW_run :: "SW_engine \<Rightarrow> LatticeType \<Rightarrow> LatticeType option" where
  "SW_run e lattice0 = map_option lattice (SW_run_state e lattice0)"

section \<open>The bond relation that the traversal consults\<close>

text \<open>A \<^verbatim>\<open>char\<close> of a bond array read as a condition: the entry exists and is nonzero.\<close>

definition flag_set :: "8 word option \<Rightarrow> bool" where
  "flag_set f = (case f of None \<Rightarrow> False | Some b \<Rightarrow> b \<noteq> 0)"

text \<open>The state in which the second phase of \<^verbatim>\<open>SW::run\<close> starts on the lattice \<open>lat\<close>: nothing is discovered.\<close>

definition SW_fresh :: "int \<Rightarrow> LatticeType \<Rightarrow> SW_state" where
  "SW_fresh L lat =
     \<lparr>lattice = lat, discovered = replicate (nat L) (replicate (nat L) 0), deq = [],
      counter = 0, discovery_log = [], flip_log = []\<rparr>"

text \<open>Site \<open>a\<close> would admit site \<open>b\<close>: with nothing discovered yet, one of the four neighbour
  tests that the traversal makes for \<open>a\<close> (\<open>SW_visit\<close> on the entries of \<open>SW_neighbours\<close>) puts
  \<open>b\<close> into the deque.\<close>

definition SW_admits ::
  "int \<Rightarrow> LatticeType \<Rightarrow> LatticeType \<Rightarrow> LatticeType \<Rightarrow> int \<times> int \<Rightarrow> int \<times> int \<Rightarrow> bool" where
  "SW_admits L doesBondNorth doesBondEast lat a b =
     list_ex (\<lambda>probe. fst probe = b \<and>
         (case SW_visit doesBondNorth doesBondEast a probe (SW_fresh L lat) of
            None \<Rightarrow> False
          | Some st' \<Rightarrow> deq st' = [b]))
       (SW_neighbours L (fst a) (snd a))"

section \<open>Shapes, sites and invariants\<close>

text \<open>A site of a lattice of side \<open>L\<close>.\<close>

definition inside :: "int \<Rightarrow> int \<times> int \<Rightarrow> bool" where
  "inside L p \<longleftrightarrow> 0 \<le> fst p \<and> fst p < L \<and> 0 \<le> snd p \<and> snd p < L"

text \<open>\<open>L\<close> rows of \<open>L\<close> entries each.\<close>

definition square :: "int \<Rightarrow> 'a list list \<Rightarrow> bool" where
  "square L g \<longleftrightarrow> int (length g) = L \<and> list_all (\<lambda>row. int (length row) = L) g"

text \<open>The invariant of the second phase of \<^verbatim>\<open>SW::run\<close> on a lattice \<open>l0\<close> of side \<open>L\<close>: the
  arrays keep their shape; a site is in the discovery log exactly when its
  \<^verbatim>\<open>discovered\<close> flag is set, and it is there once; the deque holds distinct discovered
  sites; the flipped sites are discovered sites that have left the deque, each flipped
  once; the lattice is \<open>l0\<close> negated at the flipped sites.\<close>

definition SW_inv :: "int \<Rightarrow> LatticeType \<Rightarrow> SW_state \<Rightarrow> bool" where
  "SW_inv L l0 st \<longleftrightarrow>
     square L (lattice st) \<and> square L (discovered st)
   \<and> distinct (discovery_log st)
   \<and> (\<forall>p. p \<in> set (discovery_log st)
          \<longleftrightarrow> inside L p \<and> at2 (discovered st) (fst p) (snd p) \<noteq> Some 0)
   \<and> set (deq st) \<subseteq> set (discovery_log st) \<and> distinct (deq st)
   \<and> set (flip_log st) \<subseteq> set (discovery_log st) - set (deq st) \<and> distinct (flip_log st)
   \<and> (\<forall>x y. at2 (lattice st) x y =
          (if (x, y) \<in> set (flip_log st) then map_option uminus (at2 l0 x y) else at2 l0 x y))"

text \<open>A step only extends the discovery log and leaves \<^verbatim>\<open>counter\<close> alone.\<close>

definition SW_ext :: "SW_state \<Rightarrow> SW_state \<Rightarrow> bool" where
  "SW_ext st st' \<longleftrightarrow>
     set (discovery_log st) \<subseteq> set (discovery_log st') \<and> counter st' = counter st"

text \<open>The sites that the row-major scan has passed when it stands at \<open>(i, j)\<close>.\<close>

definition before :: "int \<Rightarrow> int \<Rightarrow> int \<times> int \<Rightarrow> bool" where
  "before i j p \<longleftrightarrow> fst p < i \<or> (fst p = i \<and> snd p < j)"

text \<open>The flag of site \<open>q\<close> in the bond array \<open>g\<close> is the comparison of the buffer entry at
  the row-major position of \<open>q\<close> with \<open>p\<close>.\<close>

definition bond_set :: "int \<Rightarrow> real \<Rightarrow> real list \<Rightarrow> LatticeType \<Rightarrow> int \<times> int \<Rightarrow> bool" where
  "bond_set L p buf g q \<longleftrightarrow>
     at2 g (fst q) (snd q) = Some (of_bool (buf ! nat (fst q * L + snd q) < p))"

text \<open>The invariant of the first phase of \<^verbatim>\<open>SW::run\<close> when the scan stands at \<open>(i, j)\<close>.\<close>

definition bond_inv :: "SW_engine \<Rightarrow> int \<Rightarrow> int \<Rightarrow> int \<Rightarrow> LatticeType \<times> LatticeType \<times> int \<Rightarrow> bool" where
  "bond_inv e L i j s \<longleftrightarrow>
     square L (fst s) \<and> square L (fst (snd s)) \<and> snd (snd s) = i * L + j
   \<and> (\<forall>q. inside L q \<and> before i j q \<longrightarrow>
          bond_set L (freezeProbability e) (m_bond_north_buffer e) (fst s) q
        \<and> bond_set L (freezeProbability e) (m_bond_east_buffer e) (fst (snd s)) q)"

text \<open>The invariant of the scan of the second phase at \<open>(i, j)\<close>: no cluster is open,
  \<^verbatim>\<open>counter\<close> is the row-major position, every site passed is discovered.\<close>

definition site_inv :: "int \<Rightarrow> LatticeType \<Rightarrow> int \<Rightarrow> int \<Rightarrow> SW_state \<Rightarrow> bool" where
  "site_inv L l0 i j s \<longleftrightarrow>
     SW_inv L l0 s \<and> deq s = [] \<and> counter s = i * L + j
   \<and> (\<forall>q. inside L q \<and> before i j q \<longrightarrow> q \<in> set (discovery_log s))"

text \<open>Every entry is \<open>+1\<close> or \<open>-1\<close>.\<close>

definition pm1 :: "LatticeType \<Rightarrow> bool" where
  "pm1 g \<longleftrightarrow> list_all (list_all (\<lambda>s. s = 1 \<or> s = - 1)) g"

text \<open>The lattice \<open>g\<close> has the dimensions of \<open>l0\<close> and holds spins only.\<close>

definition keeps :: "LatticeType \<Rightarrow> LatticeType \<Rightarrow> bool" where
  "keeps l0 g \<longleftrightarrow> length g = length l0 \<and> map length g = map length l0 \<and> pm1 g"

section \<open>Basic facts\<close>






lemma int32_id: "- 2147483648 \<le> x \<Longrightarrow> x < 2147483648 \<Longrightarrow> int32 x = x"
  by (simp add: int32_def)

lemma value_count_small:
  assumes "- 134217727 \<le> J" and "J \<le> 134217727"
  shows "int32 (int32 (int32 (8 * J) - int32 (- 8 * J)) + 1) = 16 * J + 1"
proof -
  have 1: "int32 (8 * J) = 8 * J" "int32 (- 8 * J) = - 8 * J"
    using assms by (simp_all add: int32_id)
  have 2: "int32 (8 * J - - 8 * J) = 16 * J" using assms by (simp add: int32_id)
  show ?thesis unfolding 1 2 using assms by (simp add: int32_id)
qed

lemma length_get_cached_exp_values:
  assumes "- 134217727 \<le> J" and "J \<le> 134217727"
  shows "length (get_cached_exp_values J T) = nat (16 * J + 1)"
  using value_count_small [OF assms] by (simp add: get_cached_exp_values_def Let_def)

lemma nth_get_cached_exp_values:
  assumes "0 \<le> i" and "i \<le> 16 * J" and "J \<le> 134217727"
  shows "at1 (get_cached_exp_values J T) i = Some (exp (- real_of_int (i - get_exp_buffer_offset J) / T))"
proof -
  have "0 \<le> J" using assms(1,2) by simp
  then have "int32 (int32 (int32 (8 * J) - int32 (- 8 * J)) + 1) = 16 * J + 1"
    using assms(3) by (intro value_count_small) simp_all
  then show ?thesis using assms(1,2) by (simp add: at1_def get_cached_exp_values_def Let_def)
qed

lemma square_at2_iff:
  assumes "square L g"
  shows "(\<exists>v. at2 g x y = Some v) \<longleftrightarrow> inside L (x, y)"
proof -
  have rows: "\<And>i. i < length g \<Longrightarrow> int (length (g ! i)) = L"
    using assms by (simp add: square_def list_all_length)
  have len: "int (length g) = L" using assms by (simp add: square_def)
  show ?thesis
  proof
    assume "\<exists>v. at2 g x y = Some v"
    then have x: "0 \<le> x" "nat x < length g" and y: "0 \<le> y" "nat y < length (g ! nat x)"
      by (auto simp: at2_Some_iff)
    from rows [OF x(2)] y len x show "inside L (x, y)"
      unfolding inside_def fst_conv snd_conv by linarith
  next
    assume i: "inside L (x, y)"
    then have x: "0 \<le> x" "nat x < length g" using len
      unfolding inside_def fst_conv snd_conv by linarith+
    from rows [OF x(2)] i have "0 \<le> y" "nat y < length (g ! nat x)"
      unfolding inside_def fst_conv snd_conv by linarith+
    with x show "\<exists>v. at2 g x y = Some v" by (simp add: at2_Some_iff)
  qed
qed

lemma square_at2: "square L g \<Longrightarrow> inside L (x, y) \<Longrightarrow> \<exists>v. at2 g x y = Some v"
  by (simp add: square_at2_iff)

lemma at2_inside: "square L g \<Longrightarrow> at2 g x y = Some v \<Longrightarrow> inside L (x, y)"
  using square_at2_iff by blast

lemma put2_defined: "at2 g x y = Some u \<Longrightarrow> \<exists>g'. put2 g x y v = Some g'"
  by (simp add: at2_Some_iff put2_Some_iff)

lemma put2_length:
  assumes "put2 g x y v = Some g'"
  shows "length g' = length g" and "map length g' = map length g"
proof -
  from assms have x: "nat x < length g" and g': "g' = g[nat x := (g ! nat x)[nat y := v]]"
    by (simp_all add: put2_Some_iff)
  show "length g' = length g" by (simp add: g')
  show "map length g' = map length g"
    by (simp add: g' map_update list_update_same_conv x)
qed

lemma square_map_length: "square L g \<longleftrightarrow> int (length g) = L \<and> list_all (\<lambda>n. int n = L) (map length g)"
  by (simp add: square_def list_all_length)

lemma put2_square:
  assumes "put2 g x y v = Some g'" and "square L g"
  shows "square L g'"
  using assms(2) put2_length [OF assms(1)] by (simp add: square_map_length)

lemma at2_put2:
  assumes "put2 g x y v = Some g'"
  shows "at2 g' x' y' = (if x' = x \<and> y' = y then Some v else at2 g x' y')"
proof -
  from assms have x: "0 \<le> x" "nat x < length g" and y: "0 \<le> y" "nat y < length (g ! nat x)"
    and g': "g' = g[nat x := (g ! nat x)[nat y := v]]"
    by (simp_all add: put2_Some_iff)
  show ?thesis
  proof (cases "0 \<le> x' \<and> nat x' < length g \<and> 0 \<le> y'")
    case False
    then show ?thesis using x y by (auto simp: at2_def at1_def g')
  next
    case True
    show ?thesis
    proof (cases "x' = x")
      case xx: True
      show ?thesis
      proof (cases "y' = y")
        case True
        then show ?thesis using x y xx by (simp add: at2_Some_iff g')
      next
        case False
        then have "nat y' \<noteq> nat y" using True y by auto
        then show ?thesis using x y xx False by (simp add: at2_def at1_def g')
      qed
    next
      case False
      then have "nat x' \<noteq> nat x" using True x by auto
      then show ?thesis using False by (simp add: at2_def at1_def g')
    qed
  qed
qed

lemma square_replicate: "0 \<le> L \<Longrightarrow> square L (replicate (nat L) (replicate (nat L) v))"
  by (simp add: square_def list_all_length)

lemma at2_replicate:
  "inside L (x, y) \<Longrightarrow> at2 (replicate (nat L) (replicate (nat L) v)) x y = Some v"
  by (simp add: at2_Some_iff inside_def)

lemma smod_nonneg: "0 \<le> a \<Longrightarrow> 0 < L \<Longrightarrow> a smod L = a mod (L::int)"
  by (cases "a = 0") (simp_all add: smod_int_alt_def sgn_if)

lemma wrap_up: "0 \<le> y \<Longrightarrow> y < L \<Longrightarrow> 0 \<le> (y + 1) smod L \<and> (y + 1) smod L < (L::int)"
  by (simp add: smod_nonneg)

lemma wrap_down: "0 \<le> y \<Longrightarrow> y < L \<Longrightarrow> 0 \<le> (y - 1 + L) smod L \<and> (y - 1 + L) smod L < (L::int)"
  by (simp add: smod_nonneg)

lemma SW_neighbours_inside:
  assumes "inside L (x, y)" and "probe \<in> set (SW_neighbours L x y)"
  shows "inside L (fst probe) \<and> inside L (snd (snd probe))"
proof -
  from assms(1) have x: "0 \<le> x" "x < L" and y: "0 \<le> y" "y < L"
    by (simp_all add: inside_def)
  note w = wrap_up [OF x] wrap_up [OF y] wrap_down [OF x] wrap_down [OF y]
  from assms(2) consider
      "probe = ((x, (y + 1) smod L), BondNorth, (x, y))"
    | "probe = (((x + 1) smod L, y), BondEast, (x, y))"
    | "probe = ((x, (y - 1 + L) smod L), BondNorth, (x, (y - 1 + L) smod L))"
    | "probe = (((x - 1 + L) smod L, y), BondEast, ((x - 1 + L) smod L, y))"
    by (auto simp: SW_neighbours_def)
  then show ?thesis
    using x y w by cases (simp_all add: inside_def)
qed

lemma SW_ext_refl: "SW_ext st st"
  by (simp add: SW_ext_def)

lemma SW_ext_trans: "SW_ext a b \<Longrightarrow> SW_ext b c \<Longrightarrow> SW_ext a c"
  by (auto simp: SW_ext_def)

lemma SW_inv_push:
  assumes inv: "SW_inv L l0 st"
    and a: "at2 (discovered st) (fst n) (snd n) = Some 0"
    and p: "put2 (discovered st) (fst n) (snd n) 1 = Some d'"
  shows "SW_inv L l0 (st\<lparr>deq := deq st @ [n], discovered := d',
                    discovery_log := discovery_log st @ [n]\<rparr>)"
proof -
  from inv have sq: "square L (lattice st)" "square L (discovered st)"
    and dl: "distinct (discovery_log st)"
    and ch: "\<And>q. q \<in> set (discovery_log st)
          \<longleftrightarrow> inside L q \<and> at2 (discovered st) (fst q) (snd q) \<noteq> Some 0"
    and dq: "set (deq st) \<subseteq> set (discovery_log st)" "distinct (deq st)"
    and fl: "set (flip_log st) \<subseteq> set (discovery_log st) - set (deq st)" "distinct (flip_log st)"
    and la: "\<And>x y. at2 (lattice st) x y =
          (if (x, y) \<in> set (flip_log st) then map_option uminus (at2 l0 x y) else at2 l0 x y)"
    unfolding SW_inv_def by blast+
  have n_in: "inside L n" using at2_inside [OF sq(2) a] by simp
  have n_new: "n \<notin> set (discovery_log st)" using ch [of n] a by simp
  have sq': "square L d'" using put2_square [OF p sq(2)] .
  have d': "\<And>q. at2 d' (fst q) (snd q) = (if q = n then Some 1 else at2 (discovered st) (fst q) (snd q))"
    using at2_put2 [OF p] by (auto simp: prod_eq_iff)
  have ch': "\<And>q. q \<in> set (discovery_log st @ [n])
          \<longleftrightarrow> inside L q \<and> at2 d' (fst q) (snd q) \<noteq> Some 0"
    using ch n_in by (auto simp: d')
  have 1: "distinct (discovery_log st @ [n])" using dl n_new by simp
  have 2: "set (deq st @ [n]) \<subseteq> set (discovery_log st @ [n])" using dq(1) by auto
  have 3: "distinct (deq st @ [n])" using dq n_new by auto
  have 4: "set (flip_log st) \<subseteq> set (discovery_log st @ [n]) - set (deq st @ [n])"
    using fl(1) n_new by auto
  show ?thesis
    unfolding SW_inv_def using sq(1) sq' 1 ch' 2 3 4 fl(2) la by simp
qed

lemma SW_visit_total:
  assumes inv: "SW_inv L l0 st" and bn: "square L bn" and be: "square L be"
    and xy: "inside L xy" and n: "inside L (fst probe)" and b: "inside L (snd (snd probe))"
  shows "\<exists>st'. SW_visit bn be xy probe st = Some st' \<and> SW_inv L l0 st' \<and> SW_ext st st'
            \<and> (\<exists>zs. deq st' = deq st @ zs)"
proof -
  from inv have sq: "square L (lattice st)" "square L (discovered st)"
    unfolding SW_inv_def by blast+
  obtain here where here: "at2 (lattice st) (fst xy) (snd xy) = Some here"
    using square_at2 [OF sq(1), of "fst xy" "snd xy"] xy by auto
  obtain there where there: "at2 (lattice st) (fst (fst probe)) (snd (fst probe)) = Some there"
    using square_at2 [OF sq(1), of "fst (fst probe)" "snd (fst probe)"] n by auto
  obtain d where d: "at2 (discovered st) (fst (fst probe)) (snd (fst probe)) = Some d"
    using square_at2 [OF sq(2), of "fst (fst probe)" "snd (fst probe)"] n by auto
  obtain f where f: "bond_flag bn be (fst (snd probe)) (snd (snd probe)) = Some f"
    using square_at2 [OF bn, of "fst (snd (snd probe))" "snd (snd (snd probe))"]
      square_at2 [OF be, of "fst (snd (snd probe))" "snd (snd (snd probe))"] b
    by (cases "fst (snd probe)") (auto simp: bond_flag_def)
  obtain d' where d': "put2 (discovered st) (fst (fst probe)) (snd (fst probe)) 1 = Some d'"
    using put2_defined [OF d] by blast
  show ?thesis
  proof (cases "here = there \<and> d = 0 \<and> f \<noteq> 0")
    case True
    then have v: "SW_visit bn be xy probe st =
        Some (st\<lparr>deq := deq st @ [fst probe], discovered := d',
                 discovery_log := discovery_log st @ [fst probe]\<rparr>)"
      by (simp add: SW_visit_def Let_def here there d f d')
    have "SW_inv L l0 (st\<lparr>deq := deq st @ [fst probe], discovered := d',
                 discovery_log := discovery_log st @ [fst probe]\<rparr>)"
      using inv d d' True by (intro SW_inv_push) simp_all
    then show ?thesis unfolding v by (simp add: SW_ext_def subset_insertI)
  next
    case False
    then have "SW_visit bn be xy probe st = Some st"
      by (auto simp: SW_visit_def Let_def here there d f)
    then show ?thesis using inv by (simp add: SW_ext_refl)
  qed
qed

declare SW_cluster.simps [simp del]

lemma for_each_total:
  assumes "P s"
    and "\<And>x s. x \<in> set xs \<Longrightarrow> P s \<Longrightarrow> \<exists>s'. body x s = Some s' \<and> P s'"
  shows "\<exists>s'. for_each xs body s = Some s' \<and> P s'"
  using assms
proof (induction xs arbitrary: s)
  case Nil
  then show ?case by simp
next
  case (Cons x xs)
  from Cons.prems(2) [of x s] Cons.prems(1)
  obtain s1 where 1: "body x s = Some s1" and 2: "P s1" by auto
  have "\<exists>s'. for_each xs body s1 = Some s' \<and> P s'"
  proof (rule Cons.IH [OF 2])
    fix y t
    assume "y \<in> set xs" and "P t"
    then show "\<exists>s'. body y t = Some s' \<and> P s'" using Cons.prems(2) [of y t] by simp
  qed
  then show ?case by (simp add: 1)
qed

lemma for_each_upto:
  assumes "a \<le> b + 1" and "P a s"
    and "\<And>k s. a \<le> k \<Longrightarrow> k \<le> b \<Longrightarrow> P k s \<Longrightarrow> \<exists>s'. body k s = Some s' \<and> P (k + 1) s'"
  shows "\<exists>s'. for_each [a..b] body s = Some s' \<and> P (b + 1) s'"
  using assms
proof (induction "nat (b + 1 - a)" arbitrary: a s)
  case 0
  then have "a = b + 1" by simp
  then show ?case using "0.prems"(2) by simp
next
  case (Suc n)
  then have ab: "a \<le> b" by simp
  then have up: "[a..b] = a # [a + 1..b]" by (simp add: upto_rec1)
  from Suc.prems(3) [of a s] Suc.prems(2) ab
  obtain s1 where 1: "body a s = Some s1" and 2: "P (a + 1) s1" by auto
  have "\<exists>s'. for_each [a + 1..b] body s1 = Some s' \<and> P (b + 1) s'"
  proof (rule Suc.hyps(1))
    show "n = nat (b + 1 - (a + 1))" using Suc.hyps(2) by simp
    show "a + 1 \<le> b + 1" using ab by simp
    show "P (a + 1) s1" by (rule 2)
  next
    fix k t
    assume "a + 1 \<le> k" and "k \<le> b" and "P k t"
    then show "\<exists>s'. body k t = Some s' \<and> P (k + 1) s'" using Suc.prems(3) [of k t] by simp
  qed
  then show ?case by (simp add: up 1)
qed

lemma SW_inv_front_inside:
  assumes "SW_inv L l0 st" and "deq st = xy # rest"
  shows "inside L xy"
proof -
  from assms(1) have ch: "\<And>q. q \<in> set (discovery_log st)
          \<longleftrightarrow> inside L q \<and> at2 (discovered st) (fst q) (snd q) \<noteq> Some 0"
    and dq: "set (deq st) \<subseteq> set (discovery_log st)"
    unfolding SW_inv_def by blast+
  have "xy \<in> set (discovery_log st)" using dq assms(2) by auto
  then show ?thesis using ch by blast
qed

lemma SW_inv_pop:
  assumes inv: "SW_inv L l0 st" and q: "deq st = xy # rest"
  shows "SW_inv L l0 (st\<lparr>deq := rest\<rparr>)"
proof -
  from inv have sq: "square L (lattice st)" "square L (discovered st)"
    and dl: "distinct (discovery_log st)"
    and ch: "\<And>q. q \<in> set (discovery_log st)
          \<longleftrightarrow> inside L q \<and> at2 (discovered st) (fst q) (snd q) \<noteq> Some 0"
    and dq: "set (deq st) \<subseteq> set (discovery_log st)" "distinct (deq st)"
    and fl: "set (flip_log st) \<subseteq> set (discovery_log st) - set (deq st)" "distinct (flip_log st)"
    and la: "\<And>x y. at2 (lattice st) x y =
          (if (x, y) \<in> set (flip_log st) then map_option uminus (at2 l0 x y) else at2 l0 x y)"
    unfolding SW_inv_def by blast+
  have 1: "set rest \<subseteq> set (discovery_log st)" "distinct rest" using dq q by auto
  have 2: "set (flip_log st) \<subseteq> set (discovery_log st) - set rest" using fl(1) q by auto
  show ?thesis
    unfolding SW_inv_def using sq dl ch 1 2 fl(2) la by simp
qed

lemma SW_inv_flip:
  assumes inv: "SW_inv L l0 st" and q: "deq st = xy # rest"
    and s: "at2 (lattice st) (fst xy) (snd xy) = Some s"
    and p: "put2 (lattice st) (fst xy) (snd xy) (- s) = Some l'"
  shows "SW_inv L l0 (st\<lparr>lattice := l', flip_log := flip_log st @ [xy], deq := rest\<rparr>)"
proof -
  from inv have sq: "square L (lattice st)" "square L (discovered st)"
    and dl: "distinct (discovery_log st)"
    and ch: "\<And>q. q \<in> set (discovery_log st)
          \<longleftrightarrow> inside L q \<and> at2 (discovered st) (fst q) (snd q) \<noteq> Some 0"
    and dq: "set (deq st) \<subseteq> set (discovery_log st)" "distinct (deq st)"
    and fl: "set (flip_log st) \<subseteq> set (discovery_log st) - set (deq st)" "distinct (flip_log st)"
    and la: "\<And>x y. at2 (lattice st) x y =
          (if (x, y) \<in> set (flip_log st) then map_option uminus (at2 l0 x y) else at2 l0 x y)"
    unfolding SW_inv_def by blast+
  have sq': "square L l'" using put2_square [OF p sq(1)] .
  have xy_log: "xy \<in> set (discovery_log st)" and xy_rest: "xy \<notin> set rest"
    and xy_flip: "xy \<notin> set (flip_log st)"
    using dq fl(1) q by auto
  have 1: "set rest \<subseteq> set (discovery_log st)" "distinct rest" using dq q by auto
  have 2: "set (flip_log st @ [xy]) \<subseteq> set (discovery_log st) - set rest"
    using fl(1) q xy_log xy_rest by auto
  have 3: "distinct (flip_log st @ [xy])" using fl(2) xy_flip by simp
  have s0: "at2 l0 (fst xy) (snd xy) = Some s"
    using la [of "fst xy" "snd xy"] xy_flip s by simp
  have 4: "at2 l' x y =
          (if (x, y) \<in> set (flip_log st @ [xy]) then map_option uminus (at2 l0 x y) else at2 l0 x y)"
    for x y
  proof (cases "(x, y) = xy")
    case True
    then have "at2 l' x y = Some (- s)" using at2_put2 [OF p, of x y] by auto
    then show ?thesis using True s0 by auto
  next
    case False
    then have "at2 l' x y = at2 (lattice st) x y" using at2_put2 [OF p, of x y] by auto
    then show ?thesis using False la [of x y] by auto
  qed
  show ?thesis
    unfolding SW_inv_def using sq(2) sq' dl ch 1 2 3 4 by simp
qed

lemma SW_front_total:
  assumes inv: "SW_inv L l0 st" and ne: "deq st \<noteq> []"
    and bn: "square L bn" and be: "square L be"
  shows "\<exists>st'. SW_front L bn be flipCluster st = Some st' \<and> SW_inv L l0 st' \<and> SW_ext st st'"
proof -
  from ne obtain xy rest where q: "deq st = xy # rest" by (cases "deq st") auto
  have xy: "inside L xy" using SW_inv_front_inside [OF inv q] .
  let ?P = "\<lambda>s. SW_inv L l0 s \<and> SW_ext st s \<and> (\<exists>zs. deq s = deq st @ zs)"
  have "\<exists>st1. for_each (SW_neighbours L (fst xy) (snd xy)) (SW_visit bn be xy) st = Some st1
          \<and> ?P st1"
  proof (rule for_each_total)
    show "?P st" using inv by (simp add: SW_ext_refl)
  next
    fix probe s
    assume pr: "probe \<in> set (SW_neighbours L (fst xy) (snd xy))" and P: "?P s"
    have ins: "inside L (fst probe)" "inside L (snd (snd probe))"
      using SW_neighbours_inside [of L "fst xy" "snd xy" probe] xy pr by simp_all
    from P have i: "SW_inv L l0 s" and e: "SW_ext st s" and z: "\<exists>zs. deq s = deq st @ zs"
      by blast+
    from SW_visit_total [OF i bn be xy ins] obtain s' where
      v: "SW_visit bn be xy probe s = Some s'" and i': "SW_inv L l0 s'" and e': "SW_ext s s'"
      and z': "\<exists>zs. deq s' = deq s @ zs"
      by blast
    have "\<exists>zs. deq s' = deq st @ zs" using z z' by auto
    then show "\<exists>s'. SW_visit bn be xy probe s = Some s' \<and> ?P s'"
      using v i' SW_ext_trans [OF e e'] by blast
  qed
  then obtain st1 zs where
    f: "for_each (SW_neighbours L (fst xy) (snd xy)) (SW_visit bn be xy) st = Some st1"
    and i1: "SW_inv L l0 st1" and e1: "SW_ext st st1" and q1: "deq st1 = xy # (rest @ zs)"
    using q by auto
  show ?thesis
  proof (cases flipCluster)
    case False
    then have r: "SW_front L bn be flipCluster st = Some (st1\<lparr>deq := rest @ zs\<rparr>)"
      by (simp add: SW_front_def q f q1)
    have "SW_inv L l0 (st1\<lparr>deq := rest @ zs\<rparr>)" using SW_inv_pop [OF i1 q1] .
    moreover have "SW_ext st (st1\<lparr>deq := rest @ zs\<rparr>)" using e1 by (simp add: SW_ext_def)
    ultimately show ?thesis unfolding r by simp
  next
    case True
    from i1 have sq: "square L (lattice st1)" unfolding SW_inv_def by blast
    obtain s where s: "at2 (lattice st1) (fst xy) (snd xy) = Some s"
      using square_at2 [OF sq, of "fst xy" "snd xy"] xy by auto
    obtain l' where l': "put2 (lattice st1) (fst xy) (snd xy) (- s) = Some l'"
      using put2_defined [OF s] by blast
    have r: "SW_front L bn be flipCluster st
        = Some (st1\<lparr>lattice := l', flip_log := flip_log st1 @ [xy], deq := rest @ zs\<rparr>)"
      using True by (simp add: SW_front_def q f q1 s l')
    have "SW_inv L l0 (st1\<lparr>lattice := l', flip_log := flip_log st1 @ [xy], deq := rest @ zs\<rparr>)"
      using SW_inv_flip [OF i1 q1 s l'] .
    moreover have "SW_ext st (st1\<lparr>lattice := l', flip_log := flip_log st1 @ [xy], deq := rest @ zs\<rparr>)"
      using e1 by (simp add: SW_ext_def)
    ultimately show ?thesis unfolding r by simp
  qed
qed

lemma SW_cluster_total:
  assumes "SW_inv L l0 st" and "square L bn" and "square L be"
  shows "\<exists>st'. SW_cluster L bn be flipCluster st = Some st' \<and> SW_inv L l0 st' \<and> SW_ext st st'
           \<and> deq st' = []"
  using assms
proof (induction L bn be flipCluster st rule: SW_cluster.induct)
  case (1 L bn be flipCluster st)
  show ?case
  proof (cases "deq st = []")
    case True
    then have "SW_cluster L bn be flipCluster st = Some st"
      by (simp add: SW_cluster.simps [of L bn be flipCluster st])
    then show ?thesis using "1.prems"(1) True by (simp add: SW_ext_refl)
  next
    case False
    from SW_front_total [OF "1.prems"(1) False "1.prems"(2,3), of flipCluster]
    obtain st1 where f: "SW_front L bn be flipCluster st = Some st1"
      and i1: "SW_inv L l0 st1" and e1: "SW_ext st st1"
      by blast
    from "1.IH" [OF False f i1 "1.prems"(2,3)]
    obtain st' where c: "SW_cluster L bn be flipCluster st1 = Some st'"
      and i': "SW_inv L l0 st'" and e': "SW_ext st1 st'" and d: "deq st' = []"
      by blast
    have "SW_cluster L bn be flipCluster st = Some st'"
      using False f c by (simp add: SW_cluster.simps [of L bn be flipCluster st])
    then show ?thesis using i' SW_ext_trans [OF e1 e'] d by simp
  qed
qed

lemma SW_site_total:
  assumes inv: "SW_inv L l0 st" and emp: "deq st = []"
    and bn: "square L bn" and be: "square L be"
    and ij: "inside L (i, j)"
    and c: "0 \<le> counter st" "counter st < int (length (m_flip_buffer e))"
  shows "\<exists>st'. SW_site e L bn be i j st = Some st' \<and> SW_inv L l0 st' \<and> deq st' = []
           \<and> set (discovery_log st) \<subseteq> set (discovery_log st')
           \<and> counter st' = counter st + 1
           \<and> (i, j) \<in> set (discovery_log st')"
proof -
  from inv have sq: "square L (discovered st)"
    and ch: "\<And>q. q \<in> set (discovery_log st)
          \<longleftrightarrow> inside L q \<and> at2 (discovered st) (fst q) (snd q) \<noteq> Some 0"
    unfolding SW_inv_def by blast+
  obtain d where d: "at2 (discovered st) i j = Some d"
    using square_at2 [OF sq ij] by blast
  show ?thesis
  proof (cases "d = 0")
    case False
    then have r: "SW_site e L bn be i j st = Some (st\<lparr>counter := counter st + 1\<rparr>)"
      by (simp add: SW_site_def d)
    have "(i, j) \<in> set (discovery_log st)" using ch [of "(i, j)"] ij d False by simp
    moreover have "SW_inv L l0 (st\<lparr>counter := counter st + 1\<rparr>)"
      using inv by (simp add: SW_inv_def)
    ultimately show ?thesis unfolding r using emp by simp
  next
    case True
    obtain r where r: "at1 (m_flip_buffer e) (counter st) = Some r"
      using c by (simp add: at1_def)
    obtain d' where d': "put2 (discovered st) i j 1 = Some d'"
      using put2_defined [OF d] by blast
    let ?st0 = "st\<lparr>deq := [(i, j)], discovered := d',
                    discovery_log := discovery_log st @ [(i, j)]\<rparr>"
    have "SW_inv L l0 (st\<lparr>deq := deq st @ [(i, j)], discovered := d',
                    discovery_log := discovery_log st @ [(i, j)]\<rparr>)"
      using inv d d' True by (intro SW_inv_push) simp_all
    then have i0: "SW_inv L l0 ?st0" by (simp add: emp)
    from SW_cluster_total [OF i0 bn be, of "r < 0.5"]
    obtain st1 where cl: "SW_cluster L bn be (r < 0.5) ?st0 = Some st1"
      and i1: "SW_inv L l0 st1" and e1: "SW_ext ?st0 st1" and q1: "deq st1 = []"
      by blast
    have res: "SW_site e L bn be i j st = Some (st1\<lparr>counter := counter st1 + 1\<rparr>)"
      using True cl by (simp add: SW_site_def d r d' Let_def)
    have "SW_inv L l0 (st1\<lparr>counter := counter st1 + 1\<rparr>)"
      using i1 by (simp add: SW_inv_def)
    moreover have "set (discovery_log st) \<subseteq> set (discovery_log st1)"
      "(i, j) \<in> set (discovery_log st1)" "counter st1 = counter st"
      using e1 by (auto simp: SW_ext_def)
    ultimately show ?thesis unfolding res using q1 by simp
  qed
qed

lemma row_major_bound:
  assumes "inside L (i, j)"
  shows "0 \<le> i * L + j" and "i * L + j < L * L"
proof -
  from assms have i: "0 \<le> i" "i \<le> L - 1" and j: "0 \<le> j" "j < L" and L: "0 \<le> L"
    by (simp_all add: inside_def)
  have "0 \<le> i * L" using i(1) L by simp
  then show "0 \<le> i * L + j" using j(1) by simp
  have "i * L \<le> (L - 1) * L" using i(2) L by (rule mult_right_mono)
  also have "\<dots> = L * L - L" by (simp add: algebra_simps)
  finally show "i * L + j < L * L" using j(2) by simp
qed

lemma square_put2: "square L g \<Longrightarrow> inside L (x, y) \<Longrightarrow> \<exists>g'. put2 g x y v = Some g'"
  using square_at2 [of L g x y] put2_defined [of g x y _ v] by auto

lemma SW_bond_site_total:
  assumes inv: "bond_inv e L i j s" and ij: "inside L (i, j)"
    and n: "L * L \<le> int (length (m_bond_north_buffer e))"
    and ea: "L * L \<le> int (length (m_bond_east_buffer e))"
  shows "\<exists>s'. SW_bond_site e i j s = Some s' \<and> bond_inv e L i (j + 1) s'"
proof -
  obtain bn be c where s: "s = (bn, be, c)" by (cases s) auto
  from inv have sq: "square L bn" "square L be" and c: "c = i * L + j"
    and old: "\<And>q. inside L q \<Longrightarrow> before i j q \<Longrightarrow>
          bond_set L (freezeProbability e) (m_bond_north_buffer e) bn q
        \<and> bond_set L (freezeProbability e) (m_bond_east_buffer e) be q"
    unfolding bond_inv_def s fst_conv snd_conv by blast+
  have cb: "0 \<le> c" "c < L * L" using row_major_bound [OF ij] c by simp_all
  have rn: "at1 (m_bond_north_buffer e) c = Some (m_bond_north_buffer e ! nat c)"
    using cb n by (simp add: at1_def)
  have re: "at1 (m_bond_east_buffer e) c = Some (m_bond_east_buffer e ! nat c)"
    using cb ea by (simp add: at1_def)
  let ?vn = "of_bool (m_bond_north_buffer e ! nat c < freezeProbability e) :: 8 word"
  let ?ve = "of_bool (m_bond_east_buffer e ! nat c < freezeProbability e) :: 8 word"
  obtain bn' where bn': "put2 bn i j ?vn = Some bn'"
    using square_put2 [OF sq(1) ij] by blast
  obtain be' where be': "put2 be i j ?ve = Some be'"
    using square_put2 [OF sq(2) ij] by blast
  have r: "SW_bond_site e i j s = Some (bn', be', c + 1)"
    by (simp add: SW_bond_site_def s rn re bn' be')
  have sq': "square L bn'" "square L be'"
    using put2_square [OF bn' sq(1)] put2_square [OF be' sq(2)] by simp_all
  have new: "bond_set L (freezeProbability e) (m_bond_north_buffer e) bn' q
        \<and> bond_set L (freezeProbability e) (m_bond_east_buffer e) be' q"
    if q: "inside L q" "before i (j + 1) q" for q
  proof (cases "q = (i, j)")
    case True
    then show ?thesis
      using at2_put2 [OF bn', of i j] at2_put2 [OF be', of i j] c by (simp add: bond_set_def)
  next
    case False
    then have b: "before i j q" using q(2) by (auto simp: before_def prod_eq_iff)
    have nq: "(fst q = i \<and> snd q = j) = False" using False by (auto simp: prod_eq_iff)
    have "at2 bn' (fst q) (snd q) = at2 bn (fst q) (snd q)"
      "at2 be' (fst q) (snd q) = at2 be (fst q) (snd q)"
      unfolding at2_put2 [OF bn'] at2_put2 [OF be'] nq by simp_all
    then show ?thesis
      using old [OF q(1) b] by (simp add: bond_set_def)
  qed
  have "bond_inv e L i (j + 1) (bn', be', c + 1)"
    unfolding bond_inv_def using sq' c new by simp
  then show ?thesis using r by simp
qed

lemma SW_bond_row_total:
  assumes inv: "bond_inv e L i 0 s" and i: "0 \<le> i" "i < L"
    and n: "L * L \<le> int (length (m_bond_north_buffer e))"
    and ea: "L * L \<le> int (length (m_bond_east_buffer e))"
  shows "\<exists>s'. for_each [0..L - 1] (\<lambda>j. SW_bond_site e i j) s = Some s' \<and> bond_inv e L (i + 1) 0 s'"
proof -
  have "\<exists>s'. for_each [0..L - 1] (\<lambda>j. SW_bond_site e i j) s = Some s'
          \<and> bond_inv e L i (L - 1 + 1) s'"
  proof (rule for_each_upto [where P = "\<lambda>j s. bond_inv e L i j s"])
    show "0 \<le> L - 1 + 1" using i by simp
    show "bond_inv e L i 0 s" by (rule inv)
  next
    fix k t
    assume "0 \<le> k" and "k \<le> L - 1" and "bond_inv e L i k t"
    then show "\<exists>s'. SW_bond_site e i k t = Some s' \<and> bond_inv e L i (k + 1) s'"
      using SW_bond_site_total [of e L i k t] i n ea by (simp add: inside_def)
  qed
  then obtain s' where f: "for_each [0..L - 1] (\<lambda>j. SW_bond_site e i j) s = Some s'"
    and b: "bond_inv e L i L s'" by auto
  from b have sq: "square L (fst s')" "square L (fst (snd s'))"
    and c: "snd (snd s') = i * L + L"
    and old: "\<And>q. inside L q \<Longrightarrow> before i L q \<Longrightarrow>
          bond_set L (freezeProbability e) (m_bond_north_buffer e) (fst s') q
        \<and> bond_set L (freezeProbability e) (m_bond_east_buffer e) (fst (snd s')) q"
    unfolding bond_inv_def by blast+
  have c': "snd (snd s') = (i + 1) * L + 0" using c by (simp add: algebra_simps)
  have "before i L q" if "inside L q" "before (i + 1) 0 q" for q
    using that unfolding before_def inside_def by linarith
  then have "bond_inv e L (i + 1) 0 s'"
    unfolding bond_inv_def using sq c' old by blast
  then show ?thesis using f by simp
qed

lemma SW_bonds_total:
  assumes L: "0 \<le> L"
    and n: "L * L \<le> int (length (m_bond_north_buffer e))"
    and ea: "L * L \<le> int (length (m_bond_east_buffer e))"
  shows "\<exists>bn be. SW_bonds e L = Some (bn, be) \<and> square L bn \<and> square L be
    \<and> (\<forall>q. inside L q \<longrightarrow>
          bond_set L (freezeProbability e) (m_bond_north_buffer e) bn q
        \<and> bond_set L (freezeProbability e) (m_bond_east_buffer e) be q)"
proof -
  let ?z = "replicate (nat L) (replicate (nat L) (0::8 word))"
  have "\<exists>s'. for_each [0..L - 1] (\<lambda>i. for_each [0..L - 1] (\<lambda>j. SW_bond_site e i j)) (?z, ?z, 0)
           = Some s' \<and> bond_inv e L (L - 1 + 1) 0 s'"
  proof (rule for_each_upto [where P = "\<lambda>i s. bond_inv e L i 0 s"])
    show "0 \<le> L - 1 + 1" using L by simp
    show "bond_inv e L 0 0 (?z, ?z, 0)"
      using square_replicate [OF L] by (auto simp: bond_inv_def before_def inside_def)
  next
    fix k t
    assume "0 \<le> k" and "k \<le> L - 1" and "bond_inv e L k 0 t"
    then show "\<exists>s'. for_each [0..L - 1] (\<lambda>j. SW_bond_site e k j) t = Some s'
        \<and> bond_inv e L (k + 1) 0 s'"
      using SW_bond_row_total [of e L k t] n ea by simp
  qed
  then obtain bn be c where
    f: "for_each [0..L - 1] (\<lambda>i. for_each [0..L - 1] (\<lambda>j. SW_bond_site e i j)) (?z, ?z, 0)
           = Some (bn, be, c)"
    and b: "bond_inv e L L 0 (bn, be, c)"
    by auto
  have r: "SW_bonds e L = Some (bn, be)"
    by (simp add: SW_bonds_def Let_def f)
  have "\<And>q. inside L q \<Longrightarrow> before L 0 q" by (simp add: inside_def before_def)
  then show ?thesis using r b by (auto simp: bond_inv_def)
qed

lemma SW_site_step:
  assumes inv: "site_inv L l0 i j s" and ij: "inside L (i, j)"
    and bn: "square L bn" and be: "square L be"
    and fb: "L * L \<le> int (length (m_flip_buffer e))"
  shows "\<exists>s'. SW_site e L bn be i j s = Some s' \<and> site_inv L l0 i (j + 1) s'"
proof -
  from inv have i: "SW_inv L l0 s" and emp: "deq s = []" and c: "counter s = i * L + j"
    and old: "\<And>q. inside L q \<Longrightarrow> before i j q \<Longrightarrow> q \<in> set (discovery_log s)"
    unfolding site_inv_def by blast+
  have cb: "0 \<le> counter s" "counter s < int (length (m_flip_buffer e))"
    using row_major_bound [OF ij] c fb by simp_all
  from SW_site_total [OF i emp bn be ij cb]
  obtain s' where r: "SW_site e L bn be i j s = Some s'" and i': "SW_inv L l0 s'"
    and emp': "deq s' = []" and mono: "set (discovery_log s) \<subseteq> set (discovery_log s')"
    and c': "counter s' = counter s + 1" and new: "(i, j) \<in> set (discovery_log s')"
    by blast
  have "q \<in> set (discovery_log s')" if q: "inside L q" "before i (j + 1) q" for q
  proof (cases "q = (i, j)")
    case True
    then show ?thesis using new by simp
  next
    case False
    then have "before i j q" using q(2) by (auto simp: before_def prod_eq_iff)
    then show ?thesis using old [OF q(1)] mono by blast
  qed
  then have "site_inv L l0 i (j + 1) s'"
    unfolding site_inv_def using i' emp' c' c by simp
  then show ?thesis using r by simp
qed

lemma SW_site_row:
  assumes inv: "site_inv L l0 i 0 s" and i: "0 \<le> i" "i < L"
    and bn: "square L bn" and be: "square L be"
    and fb: "L * L \<le> int (length (m_flip_buffer e))"
  shows "\<exists>s'. for_each [0..L - 1] (\<lambda>j. SW_site e L bn be i j) s = Some s'
           \<and> site_inv L l0 (i + 1) 0 s'"
proof -
  have "\<exists>s'. for_each [0..L - 1] (\<lambda>j. SW_site e L bn be i j) s = Some s'
          \<and> site_inv L l0 i (L - 1 + 1) s'"
  proof (rule for_each_upto [where P = "\<lambda>j s. site_inv L l0 i j s"])
    show "0 \<le> L - 1 + 1" using i by simp
    show "site_inv L l0 i 0 s" by (rule inv)
  next
    fix k t
    assume "0 \<le> k" and "k \<le> L - 1" and "site_inv L l0 i k t"
    then show "\<exists>s'. SW_site e L bn be i k t = Some s' \<and> site_inv L l0 i (k + 1) s'"
      using SW_site_step [of L l0 i k t bn be e] i bn be fb by (simp add: inside_def)
  qed
  then obtain s' where f: "for_each [0..L - 1] (\<lambda>j. SW_site e L bn be i j) s = Some s'"
    and b: "site_inv L l0 i L s'" by auto
  from b have iv: "SW_inv L l0 s'" and emp: "deq s' = []" and c: "counter s' = i * L + L"
    and old: "\<And>q. inside L q \<Longrightarrow> before i L q \<Longrightarrow> q \<in> set (discovery_log s')"
    unfolding site_inv_def by blast+
  have c': "counter s' = (i + 1) * L + 0" using c by (simp add: algebra_simps)
  have "before i L q" if "inside L q" "before (i + 1) 0 q" for q
    using that unfolding before_def inside_def by linarith
  then have "site_inv L l0 (i + 1) 0 s'"
    unfolding site_inv_def using iv emp c' old by blast
  then show ?thesis using f by simp
qed

lemma SW_inv_initial:
  assumes "square L l0"
  shows "SW_inv L l0 \<lparr>lattice = l0, discovered = replicate (nat L) (replicate (nat L) 0),
           deq = [], counter = 0, discovery_log = [], flip_log = []\<rparr>"
proof -
  have L: "0 \<le> L" using assms by (auto simp: square_def)
  have "at2 (replicate (nat L) (replicate (nat L) (0::8 word))) (fst q) (snd q) = Some 0"
    if "inside L q" for q
    using at2_replicate [of L "fst q" "snd q"] that by simp
  then show ?thesis
    unfolding SW_inv_def using assms square_replicate [OF L] by simp
qed

lemma SW_run_state_total:
  assumes sq: "square (int (length lattice0)) lattice0"
    and n: "int (length lattice0) * int (length lattice0) \<le> int (length (m_bond_north_buffer e))"
    and ea: "int (length lattice0) * int (length lattice0) \<le> int (length (m_bond_east_buffer e))"
    and fb: "int (length lattice0) * int (length lattice0) \<le> int (length (m_flip_buffer e))"
  shows "\<exists>st. SW_run_state e lattice0 = Some st
    \<and> SW_inv (int (length lattice0)) lattice0 st \<and> deq st = []
    \<and> (\<forall>q. inside (int (length lattice0)) q \<longrightarrow> q \<in> set (discovery_log st))"
proof -
  let ?L = "int (length lattice0)"
  let ?s0 = "\<lparr>lattice = lattice0, discovered = replicate (nat ?L) (replicate (nat ?L) 0),
           deq = [], counter = 0, discovery_log = [], flip_log = []\<rparr>"
  have L: "0 \<le> ?L" by simp
  from SW_bonds_total [OF L n ea] obtain bn be where
    b: "SW_bonds e ?L = Some (bn, be)" and bn: "square ?L bn" and be: "square ?L be"
    by blast
  have "\<exists>s'. for_each [0..?L - 1] (\<lambda>i. for_each [0..?L - 1] (\<lambda>j. SW_site e ?L bn be i j)) ?s0
           = Some s' \<and> site_inv ?L lattice0 (?L - 1 + 1) 0 s'"
  proof (rule for_each_upto [where P = "\<lambda>i s. site_inv ?L lattice0 i 0 s"])
    show "0 \<le> ?L - 1 + 1" by simp
    show "site_inv ?L lattice0 0 0 ?s0"
      unfolding site_inv_def using SW_inv_initial [OF sq]
      by (auto simp: before_def inside_def)
  next
    fix k t
    assume "0 \<le> k" and "k \<le> ?L - 1" and "site_inv ?L lattice0 k 0 t"
    then show "\<exists>s'. for_each [0..?L - 1] (\<lambda>j. SW_site e ?L bn be k j) t = Some s'
        \<and> site_inv ?L lattice0 (k + 1) 0 s'"
      using SW_site_row [of ?L lattice0 k t bn be e] bn be fb by simp
  qed
  then obtain st where
    f: "for_each [0..?L - 1] (\<lambda>i. for_each [0..?L - 1] (\<lambda>j. SW_site e ?L bn be i j)) ?s0 = Some st"
    and s: "site_inv ?L lattice0 ?L 0 st"
    by auto
  have r: "SW_run_state e lattice0 = Some st"
    using f by (simp add: SW_run_state_def Let_def b)
  have "\<And>q. inside ?L q \<Longrightarrow> before ?L 0 q" by (simp add: inside_def before_def)
  then show ?thesis using r s unfolding site_inv_def by blast
qed

lemma wrap_down_mod: "0 \<le> y \<Longrightarrow> y < L \<Longrightarrow> (y - 1 + L) smod L = (y - 1) mod (L::int)"
  by (simp add: smod_nonneg)

lemma wrap_up_down: "0 \<le> y \<Longrightarrow> y < L \<Longrightarrow> ((y + 1) smod L - 1 + L) smod L = (y::int)"
proof -
  assume y: "0 \<le> y" "y < L"
  have L: "0 < L" using y by simp
  have 1: "(y + 1) smod L = (y + 1) mod L" using y by (simp add: smod_nonneg)
  have 2: "0 \<le> (y + 1) mod L" using L by simp
  have nn: "0 \<le> (y + 1) mod L - 1 + L" using 2 L by linarith
  have "((y + 1) mod L - 1 + L) smod L = ((y + 1) mod L - 1 + L) mod L"
    by (rule smod_nonneg [OF nn L])
  also have "\<dots> = ((y + 1) mod L + (L - 1)) mod L" by (simp add: algebra_simps)
  also have "\<dots> = (y + 1 + (L - 1)) mod L" by (rule mod_add_left_eq)
  also have "\<dots> = y" using y by simp
  finally show ?thesis using 1 by simp
qed

lemma wrap_down_up: "0 \<le> y \<Longrightarrow> y < L \<Longrightarrow> ((y - 1 + L) smod L + 1) smod L = (y::int)"
proof -
  assume y: "0 \<le> y" "y < L"
  have L: "0 < L" using y by simp
  have 0: "0 \<le> y - 1 + L" using y by simp
  have 1: "(y - 1 + L) smod L = (y - 1 + L) mod L" by (rule smod_nonneg [OF 0 L])
  have 2: "0 \<le> (y - 1 + L) mod L" using L by simp
  have nn: "0 \<le> (y - 1 + L) mod L + 1" using 2 by linarith
  have "((y - 1 + L) mod L + 1) smod L = ((y - 1 + L) mod L + 1) mod L"
    by (rule smod_nonneg [OF nn L])
  also have "\<dots> = (y - 1 + L + 1) mod L" by (rule mod_add_left_eq)
  also have "\<dots> = y" using y by simp
  finally show ?thesis using 1 by simp
qed

lemma wrap_up_mod: "0 \<le> y \<Longrightarrow> y < L \<Longrightarrow> (y + 1) smod L = (y + 1) mod (L::int)"
  by (simp add: smod_nonneg)

lemma mod_up_down: "0 \<le> y \<Longrightarrow> y < L \<Longrightarrow> ((y + 1) mod L - 1) mod L = (y::int)"
  using wrap_up_down [of y L] wrap_up [of y L] wrap_up_mod [of y L]
    wrap_down_mod [of "(y + 1) mod L" L]
  by simp

lemma mod_down_up: "0 \<le> y \<Longrightarrow> y < L \<Longrightarrow> ((y - 1) mod L + 1) mod L = (y::int)"
  using wrap_down_up [of y L] wrap_down [of y L] wrap_down_mod [of y L]
    wrap_up_mod [of "(y - 1) mod L" L]
  by simp

lemma SW_visit_pushes_iff:
  assumes sq: "square L (lattice st)" "square L (discovered st)"
    and bn: "square L bn" and be: "square L be"
    and a: "inside L a" and n: "inside L n" and q: "inside L q"
  shows "\<exists>st'. SW_visit bn be a (n, bond, q) st = Some st'
     \<and> (if at2 (lattice st) (fst a) (snd a) = at2 (lattice st) (fst n) (snd n)
            \<and> at2 (discovered st) (fst n) (snd n) = Some 0
            \<and> flag_set (at2 (case bond of BondNorth \<Rightarrow> bn | BondEast \<Rightarrow> be) (fst q) (snd q))
         then deq st' = deq st @ [n] else st' = st)"
proof -
  obtain here where here: "at2 (lattice st) (fst a) (snd a) = Some here"
    using square_at2 [OF sq(1), of "fst a" "snd a"] a by auto
  obtain there where there: "at2 (lattice st) (fst n) (snd n) = Some there"
    using square_at2 [OF sq(1), of "fst n" "snd n"] n by auto
  obtain d where d: "at2 (discovered st) (fst n) (snd n) = Some d"
    using square_at2 [OF sq(2), of "fst n" "snd n"] n by auto
  obtain f where f: "at2 (case bond of BondNorth \<Rightarrow> bn | BondEast \<Rightarrow> be) (fst q) (snd q) = Some f"
    using square_at2 [OF bn, of "fst q" "snd q"] square_at2 [OF be, of "fst q" "snd q"] q
    by (cases bond) auto
  obtain d' where d': "put2 (discovered st) (fst n) (snd n) 1 = Some d'"
    using put2_defined [OF d] by blast
  show ?thesis
  proof (cases "here = there \<and> d = 0 \<and> f \<noteq> 0")
    case True
    then have "SW_visit bn be a (n, bond, q) st =
        Some (st\<lparr>deq := deq st @ [n], discovered := d', discovery_log := discovery_log st @ [n]\<rparr>)"
      using f by (simp add: SW_visit_def Let_def here there d d' bond_flag_def)
    then show ?thesis using True by (simp add: here there d f flag_set_def)
  next
    case False
    then have "SW_visit bn be a (n, bond, q) st = Some st"
      using f by (auto simp: SW_visit_def Let_def here there d bond_flag_def)
    then show ?thesis using False by (auto simp: here there d f flag_set_def)
  qed
qed

lemma SW_fresh_pushes_iff:
  assumes lat: "square L lat" and bn: "square L bn" and be: "square L be"
    and a: "inside L a" and n: "inside L n" and q: "inside L q"
  shows "(case SW_visit bn be a (n, bond, q) (SW_fresh L lat) of
            None \<Rightarrow> False
          | Some st' \<Rightarrow> deq st' = [n])
     \<longleftrightarrow> at2 lat (fst a) (snd a) = at2 lat (fst n) (snd n)
         \<and> flag_set (at2 (case bond of BondNorth \<Rightarrow> bn | BondEast \<Rightarrow> be) (fst q) (snd q))"
proof -
  have L: "0 \<le> L" using a by (simp add: inside_def)
  have sq: "square L (lattice (SW_fresh L lat))" "square L (discovered (SW_fresh L lat))"
    using lat square_replicate [OF L] by (simp_all add: SW_fresh_def)
  have z: "at2 (discovered (SW_fresh L lat)) (fst n) (snd n) = Some 0"
    using at2_replicate [of L "fst n" "snd n"] n by (simp add: SW_fresh_def)
  have l: "lattice (SW_fresh L lat) = lat" and e: "deq (SW_fresh L lat) = []"
    by (simp_all add: SW_fresh_def)
  from SW_visit_pushes_iff [OF sq bn be a n q, of bond]
  obtain st' where v: "SW_visit bn be a (n, bond, q) (SW_fresh L lat) = Some st'"
    and c: "if at2 lat (fst a) (snd a) = at2 lat (fst n) (snd n)
            \<and> flag_set (at2 (case bond of BondNorth \<Rightarrow> bn | BondEast \<Rightarrow> be) (fst q) (snd q))
         then deq st' = [n] else st' = SW_fresh L lat"
    unfolding z l e by auto
  show ?thesis
  proof (cases "at2 lat (fst a) (snd a) = at2 lat (fst n) (snd n)
            \<and> flag_set (at2 (case bond of BondNorth \<Rightarrow> bn | BondEast \<Rightarrow> be) (fst q) (snd q))")
    case True
    then show ?thesis using c by (simp add: v)
  next
    case False
    then have "st' = SW_fresh L lat" using c by auto
    then have "deq st' \<noteq> [n]" by (simp add: SW_fresh_def)
    then show ?thesis using False by (simp add: v)
  qed
qed

lemma factor_four:
  "(n1 = b \<and> f n1 \<and> F1) \<or> (n2 = b \<and> f n2 \<and> F2) \<or> (n3 = b \<and> f n3 \<and> F3) \<or> (n4 = b \<and> f n4 \<and> F4)
   \<longleftrightarrow> f b \<and> (b = n1 \<and> F1 \<or> b = n2 \<and> F2 \<or> b = n3 \<and> F3 \<or> b = n4 \<and> F4)"
  by blast

lemma SW_admits_iff:
  assumes lat: "square L lat" and bn: "square L bn" and be: "square L be"
    and a: "inside L (x, y)" and b: "inside L b"
  shows "SW_admits L bn be lat (x, y) b \<longleftrightarrow>
          at2 lat x y = at2 lat (fst b) (snd b)
        \<and> (b = (x, (y + 1) mod L) \<and> flag_set (at2 bn x y)
         \<or> b = ((x + 1) mod L, y) \<and> flag_set (at2 be x y)
         \<or> b = (x, (y - 1) mod L) \<and> flag_set (at2 bn x ((y - 1) mod L))
         \<or> b = ((x - 1) mod L, y) \<and> flag_set (at2 be ((x - 1) mod L) y))"
proof -
  from a have x: "0 \<le> x" "x < L" and y: "0 \<le> y" "y < L" by (simp_all add: inside_def)
  note m = wrap_up_mod [OF x] wrap_up_mod [OF y] wrap_down_mod [OF x] wrap_down_mod [OF y]
  have nb: "SW_neighbours L x y =
     [((x, (y + 1) mod L), BondNorth, (x, y)),
      (((x + 1) mod L, y), BondEast, (x, y)),
      ((x, (y - 1) mod L), BondNorth, (x, (y - 1) mod L)),
      (((x - 1) mod L, y), BondEast, ((x - 1) mod L, y))]"
    unfolding SW_neighbours_def m ..
  have i: "inside L (x, (y + 1) mod L)" "inside L ((x + 1) mod L, y)"
    "inside L (x, (y - 1) mod L)" "inside L ((x - 1) mod L, y)"
    using x y by (simp_all add: inside_def)
  note p = SW_fresh_pushes_iff [OF lat bn be a i(1) a, of BondNorth]
    SW_fresh_pushes_iff [OF lat bn be a i(2) a, of BondEast]
    SW_fresh_pushes_iff [OF lat bn be a i(3) i(3), of BondNorth]
    SW_fresh_pushes_iff [OF lat bn be a i(4) i(4), of BondEast]
  let ?f = "\<lambda>n. at2 lat x y = at2 lat (fst n) (snd n)"
  let ?P = "\<lambda>probe. fst probe = b \<and>
         (case SW_visit bn be (x, y) probe (SW_fresh L lat) of
            None \<Rightarrow> False
          | Some st' \<Rightarrow> deq st' = [b])"
  have k: "?P (n, bond, q) \<longleftrightarrow> n = b \<and>
         (case SW_visit bn be (x, y) (n, bond, q) (SW_fresh L lat) of
            None \<Rightarrow> False
          | Some st' \<Rightarrow> deq st' = [n])" for n bond q
    by (auto split: option.splits)
  have "SW_admits L bn be lat (x, y) b \<longleftrightarrow> list_ex ?P (SW_neighbours L x y)"
    by (simp add: SW_admits_def)
  also have "\<dots> \<longleftrightarrow> ?P ((x, (y + 1) mod L), BondNorth, (x, y))
      \<or> ?P (((x + 1) mod L, y), BondEast, (x, y))
      \<or> ?P ((x, (y - 1) mod L), BondNorth, (x, (y - 1) mod L))
      \<or> ?P (((x - 1) mod L, y), BondEast, ((x - 1) mod L, y))"
    unfolding nb list_ex_Cons_iff list_ex_Nil_iff by (simp only: simp_thms)
  also have "\<dots> \<longleftrightarrow>
       ((x, (y + 1) mod L) = b \<and> ?f (x, (y + 1) mod L) \<and> flag_set (at2 bn x y))
     \<or> (((x + 1) mod L, y) = b \<and> ?f ((x + 1) mod L, y) \<and> flag_set (at2 be x y))
     \<or> ((x, (y - 1) mod L) = b \<and> ?f (x, (y - 1) mod L) \<and> flag_set (at2 bn x ((y - 1) mod L)))
     \<or> (((x - 1) mod L, y) = b \<and> ?f ((x - 1) mod L, y) \<and> flag_set (at2 be ((x - 1) mod L) y))"
    unfolding k p by (simp only: fst_conv snd_conv Bond.case)
  also have "\<dots> \<longleftrightarrow> ?f b \<and> (b = (x, (y + 1) mod L) \<and> flag_set (at2 bn x y)
         \<or> b = ((x + 1) mod L, y) \<and> flag_set (at2 be x y)
         \<or> b = (x, (y - 1) mod L) \<and> flag_set (at2 bn x ((y - 1) mod L))
         \<or> b = ((x - 1) mod L, y) \<and> flag_set (at2 be ((x - 1) mod L) y))"
    by (rule factor_four)
  finally show ?thesis .
qed

lemma SW_admits_sym_imp:
  assumes lat: "square L lat" and bn: "square L bn" and be: "square L be"
    and a: "inside L a" and b: "inside L b" and ab: "SW_admits L bn be lat a b"
  shows "SW_admits L bn be lat b a"
proof -
  obtain x y where axy: "a = (x, y)" by (cases a) auto
  obtain x' y' where bxy: "b = (x', y')" by (cases b) auto
  from a axy have x: "0 \<le> x" "x < L" and y: "0 \<le> y" "y < L" by (simp_all add: inside_def)
  from b bxy have x': "0 \<le> x'" "x' < L" and y': "0 \<le> y'" "y' < L" by (simp_all add: inside_def)
  have ia: "inside L (x, y)" and ib: "inside L (x', y')" using a b axy bxy by simp_all
  from ab have "SW_admits L bn be lat (x, y) (x', y')" by (simp add: axy bxy)
  from this [unfolded SW_admits_iff [OF lat bn be ia ib]]
  have eq: "at2 lat x y = at2 lat x' y'"
    and c: "(x', y') = (x, (y + 1) mod L) \<and> flag_set (at2 bn x y)
         \<or> (x', y') = ((x + 1) mod L, y) \<and> flag_set (at2 be x y)
         \<or> (x', y') = (x, (y - 1) mod L) \<and> flag_set (at2 bn x ((y - 1) mod L))
         \<or> (x', y') = ((x - 1) mod L, y) \<and> flag_set (at2 be ((x - 1) mod L) y)"
    by simp_all
  from c consider
      (north) "x' = x" "y' = (y + 1) mod L" "flag_set (at2 bn x y)"
    | (east) "x' = (x + 1) mod L" "y' = y" "flag_set (at2 be x y)"
    | (south) "x' = x" "y' = (y - 1) mod L" "flag_set (at2 bn x' y')"
    | (west) "x' = (x - 1) mod L" "y' = y" "flag_set (at2 be x' y')"
    by auto
  then have "(x, y) = (x', (y' + 1) mod L) \<and> flag_set (at2 bn x' y')
         \<or> (x, y) = ((x' + 1) mod L, y') \<and> flag_set (at2 be x' y')
         \<or> (x, y) = (x', (y' - 1) mod L) \<and> flag_set (at2 bn x' ((y' - 1) mod L))
         \<or> (x, y) = ((x' - 1) mod L, y') \<and> flag_set (at2 be ((x' - 1) mod L) y')"
  proof cases
    case north
    then show ?thesis using mod_up_down [OF y] by simp
  next
    case east
    then show ?thesis using mod_up_down [OF x] by simp
  next
    case south
    then show ?thesis using mod_down_up [OF y] by simp
  next
    case west
    then show ?thesis using mod_down_up [OF x] by simp
  qed
  then have "SW_admits L bn be lat (x', y') (x, y)"
    unfolding SW_admits_iff [OF lat bn be ib ia] using eq by simp
  then show ?thesis by (simp add: axy bxy)
qed

lemma distinct_count_list_le: "distinct xs \<Longrightarrow> count_list xs x \<le> 1"
  by (induction xs) auto

lemma distinct_count_list_one: "distinct xs \<Longrightarrow> x \<in> set xs \<Longrightarrow> count_list xs x = 1"
  by (induction xs) auto

lemma put2_neg_pm1:
  assumes s: "at2 g x y = Some s" and p: "put2 g x y (- s) = Some g'" and g: "pm1 g"
  shows "pm1 g'"
proof -
  from s have x: "nat x < length g" and y: "nat y < length (g ! nat x)"
    and v: "g ! nat x ! nat y = s"
    by (simp_all add: at2_Some_iff)
  from p have g': "g' = g[nat x := (g ! nat x)[nat y := - s]]"
    by (simp add: put2_Some_iff)
  from g have all: "\<And>i j. i < length g \<Longrightarrow> j < length (g ! i) \<Longrightarrow> g ! i ! j = 1 \<or> g ! i ! j = - 1"
    by (simp add: pm1_def list_all_length)
  have sv: "s = 1 \<or> s = - 1" using all [OF x y] v by simp
  then have ns: "- s = 1 \<or> - s = - 1" by auto
  have "g' ! i ! j = 1 \<or> g' ! i ! j = - 1" if i: "i < length g'" and j: "j < length (g' ! i)" for i j
  proof (cases "i = nat x")
    case True
    show ?thesis
    proof (cases "j = nat y")
      case jy: True
      then show ?thesis using True x y ns by (simp add: g')
    next
      case False
      then show ?thesis using True x y i j all [of i j] by (simp add: g')
    qed
  next
    case False
    then show ?thesis using i j all [of i j] by (simp add: g')
  qed
  then show ?thesis by (simp add: pm1_def list_all_length)
qed

lemma keeps_flip:
  assumes "at2 g x y = Some s" and "put2 g x y (- s) = Some g'" and "keeps l0 g"
  shows "keeps l0 g'"
  using put2_neg_pm1 [OF assms(1,2)] put2_length [OF assms(2)] assms(3)
  by (simp add: keeps_def)

lemma Metropolis_proposal_cases:
  assumes "Metropolis_proposal e dE_fun i g = Some g'"
  shows "g' = g \<or> (\<exists>s x y. at2 g x y = Some s \<and> put2 g x y (- s) = Some g')"
proof -
  from assms obtain flip k accept where
    "at1 (m_lattice_index_buffer e) i = Some flip"
    and "dE_fun g (fst flip) (snd flip) = Some k"
    and r: "(if accept then do {
       s \<leftarrow> at2 g (fst flip) (snd flip);
       put2 g (fst flip) (snd flip) (s * (- 1))
     } else Some g) = Some g'"
    unfolding Metropolis_proposal_def Let_def bind_eq_Some_conv by blast
  show ?thesis
  proof (cases accept)
    case True
    then show ?thesis using r by (auto simp: bind_eq_Some_conv)
  next
    case False
    then show ?thesis using r by simp
  qed
qed

lemma Metropolis_run_keeps:
  assumes "Metropolis_run e dE_fun g = Some g'" and "keeps l0 g"
  shows "keeps l0 g'"
proof (rule for_each_invariant [OF assms(1) [unfolded Metropolis_run_def], of "keeps l0"])
  show "keeps l0 g" by (rule assms(2))
next
  fix i :: int and s s' :: LatticeType
  assume k: "keeps l0 s" and p: "Metropolis_proposal e dE_fun i s = Some s'"
  from Metropolis_proposal_cases [OF p] show "keeps l0 s'"
    using k keeps_flip by blast
qed

lemma SW_visit_lattice:
  assumes "SW_visit bn be xy probe st = Some st'"
  shows "lattice st' = lattice st"
  using SW_visit_cases [OF assms] by auto

lemma SW_front_keeps:
  assumes f: "SW_front L bn be flipCluster st = Some st'" and k: "keeps l0 (lattice st)"
  shows "keeps l0 (lattice st')"
proof -
  from SW_front_cases [OF f] obtain xy rest st1 st2 where
    1: "for_each (SW_neighbours L (fst xy) (snd xy)) (SW_visit bn be xy) st = Some st1"
    and 2: "if flipCluster
        then \<exists>s lattice'. at2 (lattice st1) (fst xy) (snd xy) = Some s
               \<and> put2 (lattice st1) (fst xy) (snd xy) (- s) = Some lattice'
               \<and> st2 = st1\<lparr>lattice := lattice', flip_log := flip_log st1 @ [xy]\<rparr>
        else st2 = st1"
    and 3: "st' = st2\<lparr>deq := tl (deq st2)\<rparr>"
    by blast
  have k1: "keeps l0 (lattice st1)"
    by (rule for_each_invariant [OF 1, of "\<lambda>s. keeps l0 (lattice s)"])
       (simp_all add: k SW_visit_lattice)
  have "keeps l0 (lattice st2)"
  proof (cases flipCluster)
    case True
    with 2 obtain s l' where "at2 (lattice st1) (fst xy) (snd xy) = Some s"
      and "put2 (lattice st1) (fst xy) (snd xy) (- s) = Some l'"
      and "st2 = st1\<lparr>lattice := l', flip_log := flip_log st1 @ [xy]\<rparr>"
      by auto
    then show ?thesis using keeps_flip [OF _ _ k1] by simp
  next
    case False
    then show ?thesis using 2 k1 by simp
  qed
  then show ?thesis by (simp add: 3)
qed

lemma SW_cluster_keeps:
  assumes "SW_cluster L bn be flipCluster st = Some st'" and "keeps l0 (lattice st)"
  shows "keeps l0 (lattice st')"
  using assms
proof (induction L bn be flipCluster st rule: SW_cluster.induct)
  case (1 L bn be flipCluster st)
  show ?case
  proof (cases "deq st = []")
    case True
    then have "st' = st" using "1.prems"(1)
      by (simp add: SW_cluster.simps [of L bn be flipCluster st])
    then show ?thesis using "1.prems"(2) by simp
  next
    case False
    then obtain st1 where f: "SW_front L bn be flipCluster st = Some st1"
      and c: "SW_cluster L bn be flipCluster st1 = Some st'"
      using "1.prems"(1)
      by (auto simp: SW_cluster.simps [of L bn be flipCluster st] split: option.splits)
    show ?thesis
      using "1.IH" [OF False f c SW_front_keeps [OF f "1.prems"(2)]] .
  qed
qed

lemma SW_site_keeps:
  assumes r: "SW_site e L bn be i j st = Some st'" and k: "keeps l0 (lattice st)"
  shows "keeps l0 (lattice st')"
proof -
  from r obtain d st1 where d: "at2 (discovered st) i j = Some d"
    and c: "(if d = 0 then do {
                r \<leftarrow> at1 (m_flip_buffer e) (counter st);
                let flipCluster = (r < 0.5);
                discovered' \<leftarrow> put2 (discovered st) i j 1;
                SW_cluster L bn be flipCluster
                  (st\<lparr>deq := [(i, j)], discovered := discovered',
                      discovery_log := discovery_log st @ [(i, j)]\<rparr>)
              } else Some st) = Some st1"
    and st': "st' = st1\<lparr>counter := counter st1 + 1\<rparr>"
    unfolding SW_site_def bind_eq_Some_conv by auto
  have "keeps l0 (lattice st1)"
  proof (cases "d = 0")
    case False
    then show ?thesis using c k by simp
  next
    case True
    with c obtain f d' where
      "SW_cluster L bn be f (st\<lparr>deq := [(i, j)], discovered := d',
                      discovery_log := discovery_log st @ [(i, j)]\<rparr>) = Some st1"
      by (auto simp: Let_def bind_eq_Some_conv)
    from SW_cluster_keeps [OF this] k show ?thesis by simp
  qed
  then show ?thesis by (simp add: st')
qed

lemma SW_run_state_keeps:
  assumes r: "SW_run_state e l0 = Some st" and p: "pm1 l0"
  shows "keeps l0 (lattice st)"
proof -
  let ?L = "int (length l0)"
  from r obtain bn be where
    f: "for_each [0..?L - 1] (\<lambda>i. for_each [0..?L - 1] (\<lambda>j. SW_site e ?L bn be i j))
       \<lparr>lattice = l0, discovered = replicate (nat ?L) (replicate (nat ?L) 0), deq = [],
        counter = 0, discovery_log = [], flip_log = []\<rparr> = Some st"
    unfolding SW_run_state_def Let_def bind_eq_Some_conv by auto
  show ?thesis
  proof (rule for_each_invariant [OF f, of "\<lambda>s. keeps l0 (lattice s)"])
    show "keeps l0 (lattice \<lparr>lattice = l0, discovered = replicate (nat ?L) (replicate (nat ?L) 0),
        deq = [], counter = 0, discovery_log = [], flip_log = []\<rparr>)"
      using p by (simp add: keeps_def)
  next
    fix i :: int and s s' :: SW_state
    assume k: "keeps l0 (lattice s)"
      and row: "for_each [0..?L - 1] (\<lambda>j. SW_site e ?L bn be i j) s = Some s'"
    show "keeps l0 (lattice s')"
      by (rule for_each_invariant [OF row, of "\<lambda>s. keeps l0 (lattice s)"])
         (simp_all add: k SW_site_keeps)
  qed
qed

lemma DBL_MAX_bounds: "2 ^ 1023 \<le> DBL_MAX" "DBL_MAX < 2 ^ 1024"
proof -
  have "(1::real) \<le> 2 - 1 / 2 ^ 52" by simp
  then have "1 * 2 ^ 1023 \<le> (2 - 1 / 2 ^ 52) * (2 ^ 1023 :: real)"
    by (rule mult_right_mono) simp
  then show "2 ^ 1023 \<le> DBL_MAX" by (simp add: DBL_MAX_def)
  have "(2 - 1 / 2 ^ 52) * (2 ^ 1023 :: real) < 2 * 2 ^ 1023"
    by (rule mult_strict_right_mono) simp_all
  then show "DBL_MAX < 2 ^ 1024" by (simp add: DBL_MAX_def)
qed

lemma DBL_MAX_pos: "0 < DBL_MAX"
proof -
  have "(0::real) < 2 ^ 1023" by simp
  then show ?thesis using DBL_MAX_bounds(1) by linarith
qed

lemma to_double_in_range:
  assumes "rnd x = r" and "\<bar>r\<bar> \<le> DBL_MAX"
  shows "to_double rnd x = Finite r"
  using assms by (auto simp: to_double_def Let_def)

lemma to_double_overflow:
  assumes "DBL_MAX < rnd x"
  shows "to_double rnd x = PlusInf"
  using assms by (simp add: to_double_def Let_def)

lemma get_variance_double_singleton_overflow:
  assumes "rnd v = v" and "\<bar>v\<bar> \<le> DBL_MAX" and "DBL_MAX < rnd (v * v)"
  shows "get_variance_double rnd [Finite v] = NaN"
proof -
  have v: "to_double rnd v = Finite v"
    using assms(1,2) by (rule to_double_in_range)
  have w: "to_double rnd (v * v) = PlusInf"
    using assms(3) by (rule to_double_overflow)
  have mean: "get_mean_double rnd [Finite v] = Finite v"
    by (simp add: get_mean_double_def v)
  have sq: "get_squared_mean_double rnd [Finite v] = PlusInf"
    by (simp add: get_squared_mean_double_def w signed_inf_def)
  show ?thesis
    by (simp add: get_variance_double_def mean sq w dsub_def)
qed

lemma for_each_append:
  "for_each (xs @ ys) body s = for_each xs body s \<bind> for_each ys body"
proof (induction xs arbitrary: s)
  case Nil
  then show ?case by simp
next
  case (Cons a xs)
  then show ?case by (cases "body a s") simp_all
qed

lemma get_exp_buffer_offset_abs: "get_exp_buffer_offset J = 8 * \<bar>J\<bar>"
  by (simp add: get_exp_buffer_offset_def)

section \<open>The claims\<close>

text \<open>C1. \<^verbatim>\<open>Metropolis::run\<close> is its proposals in the order of the loop index. The
  proposal at index \<open>i\<close>, started on a lattice \<open>grid\<close>, with \<open>(fi, fj)\<close> the \<open>i\<close>-th coordinate
  pair, \<open>u\<close> the \<open>i\<close>-th real and \<open>dE = J * get_dE(grid, fi, fj)\<close>, leaves the negated spin
  at \<open>(fi, fj)\<close> if \<open>dE \<le> 0\<close> or \<open>u\<close> is below the table entry at \<open>dE + 8\<bar>J\<bar>\<close>, and the spin
  itself otherwise; every other site keeps its value.\<close>

theorem Metropolis_run_proposal:
  assumes i: "0 \<le> i" "i < int (length (m_random_buffer e))"
    and idx: "at1 (m_lattice_index_buffer e) i = Some (fi, fj)"
    and g: "dE_fun grid fi fj = Some g" and dE: "dE = Metropolis_engine.m_J e * g"
    and u: "u = m_random_buffer e ! nat i"
    and s: "at2 grid fi fj = Some s"
    and c: "0 < dE \<longrightarrow> at1 (m_cached_exp_values e) (dE + 8 * \<bar>Metropolis_engine.m_J e\<bar>) = Some c"
  shows "Metropolis_run e dE_fun grid0 =
           for_each [0..i - 1] (Metropolis_proposal e dE_fun) grid0
             \<bind> Metropolis_proposal e dE_fun i
             \<bind> for_each [i + 1..int (length (m_random_buffer e)) - 1] (Metropolis_proposal e dE_fun)
       \<and> (\<exists>grid'. Metropolis_proposal e dE_fun i grid = Some grid'
             \<and> at2 grid' fi fj = Some (if dE \<le> 0 \<or> u < c then - s else s)
             \<and> (\<forall>x y. (x, y) \<noteq> (fi, fj) \<longrightarrow> at2 grid' x y = at2 grid x y))"
proof
  have "[0..int (length (m_random_buffer e)) - 1]
      = [0..i - 1] @ i # [i + 1..int (length (m_random_buffer e)) - 1]"
    using i by (intro upto_split3) simp_all
  moreover have "for_each (i # [i + 1..int (length (m_random_buffer e)) - 1]) (Metropolis_proposal e dE_fun)
      = (\<lambda>y. Metropolis_proposal e dE_fun i y
            \<bind> for_each [i + 1..int (length (m_random_buffer e)) - 1] (Metropolis_proposal e dE_fun))"
    by (rule ext) simp
  ultimately show "Metropolis_run e dE_fun grid0 =
           for_each [0..i - 1] (Metropolis_proposal e dE_fun) grid0
             \<bind> Metropolis_proposal e dE_fun i
             \<bind> for_each [i + 1..int (length (m_random_buffer e)) - 1] (Metropolis_proposal e dE_fun)"
    by (simp add: Metropolis_run_def for_each_append)
next
  have ru: "at1 (m_random_buffer e) i = Some u" using i u by (simp add: at1_def)
  obtain grid1 where p: "put2 grid fi fj (- s) = Some grid1"
    using put2_defined [OF s] by blast
  show "\<exists>grid'. Metropolis_proposal e dE_fun i grid = Some grid'
             \<and> at2 grid' fi fj = Some (if dE \<le> 0 \<or> u < c then - s else s)
             \<and> (\<forall>x y. (x, y) \<noteq> (fi, fj) \<longrightarrow> at2 grid' x y = at2 grid x y)"
  proof (cases "dE \<le> 0 \<or> u < c")
    case True
    then have "Metropolis_proposal e dE_fun i grid = Some grid1"
      using c dE
      by (auto simp: Metropolis_proposal_def Let_def idx g ru s p get_exp_buffer_offset_abs)
    then show ?thesis using True at2_put2 [OF p] by auto
  next
    case False
    then have "Metropolis_proposal e dE_fun i grid = Some grid"
      using c dE
      by (auto simp: Metropolis_proposal_def Let_def idx g ru s get_exp_buffer_offset_abs)
    then show ?thesis using False s by auto
  qed
qed

theorem Metropolis_run_proposal_witness:
  "\<exists>grid'. Metropolis_proposal (Metropolis_new 1 2 [(0, 0), (1, 1), (0, 1), (0, 0)] [0, 0.6, 0.4, 0.7])
        get_dE 0 [[1, 1], [1, - 1]] = Some grid'
     \<and> at2 grid' 0 0 = Some (- 1) \<and> at2 grid' 0 1 = Some 1
     \<and> at2 grid' 1 0 = Some 1 \<and> at2 grid' 1 1 = Some (- 1)"
proof -
  let ?e = "Metropolis_new 1 2 [(0, 0), (1, 1), (0, 1), (0, 0)] [0, 0.6, 0.4, 0.7]"
  let ?g = "[[1, 1], [1, - 1]] :: LatticeType"
  have 1: "(0::int) \<le> 0" "0 < int (length (m_random_buffer ?e))"
    by (simp_all add: Metropolis_new_def)
  have 2: "at1 (m_lattice_index_buffer ?e) 0 = Some (0, 0)"
    by (simp add: Metropolis_new_def at1_def)
  have 3: "get_dE ?g 0 0 = Some 8" by code_simp
  have 4: "(8::int) = Metropolis_engine.m_J ?e * 8" by (simp add: Metropolis_new_def)
  have 5: "(0::real) = m_random_buffer ?e ! nat 0" by (simp add: Metropolis_new_def)
  have 6: "at2 ?g 0 0 = Some 1" by (simp add: at2_def at1_def)
  have 7: "0 < (8::int) \<longrightarrow>
      at1 (m_cached_exp_values ?e) (8 + 8 * \<bar>Metropolis_engine.m_J ?e\<bar>) = Some (exp (- 8 / 2))"
    using nth_get_cached_exp_values [of 16 1 2]
    by (simp add: Metropolis_new_def get_exp_buffer_offset_def)
  from Metropolis_run_proposal [where e = ?e and i = 0 and fi = 0 and fj = 0 and dE_fun = get_dE
      and grid = ?g and g = 8 and dE = 8 and u = 0 and s = 1 and c = "exp (- 8 / 2)",
      OF 1 2 3 4 5 6 7]
  obtain grid' where a: "Metropolis_proposal ?e get_dE 0 ?g = Some grid'"
    and b: "at2 grid' 0 0 = Some (if (8::int) \<le> 0 \<or> (0::real) < exp (- 8 / 2) then - 1 else 1)"
    and c: "\<And>x y. (x, y) \<noteq> (0, 0) \<Longrightarrow> at2 grid' x y = at2 ?g x y"
    by blast
  have d: "at2 ?g 0 1 = Some 1" "at2 ?g 1 0 = Some 1" "at2 ?g 1 1 = Some (- 1)"
    by (simp_all add: at2_def at1_def)
  have "at2 grid' 0 1 = Some 1" "at2 grid' 1 0 = Some 1" "at2 grid' 1 1 = Some (- 1)"
    using c [of 0 1] c [of 1 0] c [of 1 1] d by simp_all
  then show ?thesis using a b by simp
qed

text \<open>C2. A job that selects Swendsen-Wang is advanced by Metropolis in its main iterations:
  here a single temperature, four iterations, three warmup runs.\<close>

theorem run_job_SW_runs_Metropolis:
  "run_job \<lparr>m_L = 4, m_algorithm = SW, m_temp_mode = Single, m_t_single = 2, m_t_min = 1,
            m_t_max = 3, m_temp_steps = 3, m_n = 4, m_start_runs = 3,
            m_image_mode = \<lparr>m_mode = Movie\<rparr>\<rparr>
     = [\<lparr>run_temp = 2, warmup_runs = [SW, SW], main_runs = [Metropolis, Metropolis, Metropolis],
         image_writer = MovieWriter\<rparr>]"
  by (simp add: run_job_def run_job_alg_def run_job_alg_imager_def run_job_temps_def
      get_physical_results_def numeral_eq_Suc)

text \<open>C3. On a square lattice of side \<open>L\<close>, with buffers of at least \<open>L\<^sup>2\<close> values,
  \<^verbatim>\<open>SW::run\<close> returns, and it has put every site of the lattice into a cluster exactly
  once, and nothing else; no site is negated more than once: the lattice it leaves is the
  original one negated at the sites of the flip log.\<close>

theorem SW_run_discovers_every_site_once:
  assumes "L = int (length lattice0)" and "square L lattice0"
    and "L * L \<le> int (length (m_bond_north_buffer e))"
    and "L * L \<le> int (length (m_bond_east_buffer e))"
    and "L * L \<le> int (length (m_flip_buffer e))"
  shows "\<exists>st. SW_run_state e lattice0 = Some st
    \<and> (\<forall>q. inside L q \<longrightarrow> count_list (discovery_log st) q = 1)
    \<and> (\<forall>q. \<not> inside L q \<longrightarrow> count_list (discovery_log st) q = 0)
    \<and> (\<forall>q. count_list (flip_log st) q \<le> 1)
    \<and> (\<forall>x y. at2 (lattice st) x y =
          (if (x, y) \<in> set (flip_log st) then map_option uminus (at2 lattice0 x y)
           else at2 lattice0 x y))"
proof -
  from SW_run_state_total [of lattice0 e] assms
  obtain st where r: "SW_run_state e lattice0 = Some st"
    and inv: "SW_inv L lattice0 st"
    and all: "\<And>q. inside L q \<Longrightarrow> q \<in> set (discovery_log st)"
    by auto
  from inv have dl: "distinct (discovery_log st)"
    and ch: "\<And>q. q \<in> set (discovery_log st) \<Longrightarrow> inside L q"
    and fl: "distinct (flip_log st)"
    and la: "\<And>x y. at2 (lattice st) x y =
          (if (x, y) \<in> set (flip_log st) then map_option uminus (at2 lattice0 x y)
           else at2 lattice0 x y)"
    unfolding SW_inv_def by blast+
  have 1: "count_list (discovery_log st) q = 1" if "inside L q" for q
    using distinct_count_list_one [OF dl all [OF that]] .
  have 2: "count_list (discovery_log st) q = 0" if "\<not> inside L q" for q
    using ch [of q] that by (auto simp: count_list_0_iff)
  have 3: "count_list (flip_log st) q \<le> 1" for q
    using distinct_count_list_le [OF fl] .
  show ?thesis
  proof (intro exI conjI allI impI)
    show "SW_run_state e lattice0 = Some st" by (rule r)
  next
    fix q show "count_list (flip_log st) q \<le> 1" by (rule 3)
  qed (simp_all add: 1 2 la)
qed

theorem SW_run_discovers_every_site_once_witness:
  "\<exists>st. SW_run_state \<lparr>m_J = 1, m_T = 2, m_bond_north_buffer = [0.1, 0.9, 0.2, 0.8],
            m_bond_east_buffer = [0.7, 0.3, 0.6, 0.4], m_flip_buffer = [0.4, 0.6, 0.1, 0.9]\<rparr>
          [[1, - 1], [1, 1]] = Some st
    \<and> count_list (discovery_log st) (0, 0) = 1 \<and> count_list (discovery_log st) (0, 1) = 1
    \<and> count_list (discovery_log st) (1, 0) = 1 \<and> count_list (discovery_log st) (1, 1) = 1
    \<and> count_list (discovery_log st) (2, 0) = 0
    \<and> count_list (flip_log st) (0, 0) \<le> 1 \<and> count_list (flip_log st) (1, 1) \<le> 1"
proof -
  let ?e = "\<lparr>m_J = 1, m_T = 2, m_bond_north_buffer = [0.1, 0.9, 0.2, 0.8],
            m_bond_east_buffer = [0.7, 0.3, 0.6, 0.4], m_flip_buffer = [0.4, 0.6, 0.1, 0.9]\<rparr>"
  let ?l = "[[1, - 1], [1, 1]] :: LatticeType"
  have h: "(2::int) = int (length ?l)" "square 2 ?l"
    "2 * 2 \<le> int (length (m_bond_north_buffer ?e))"
    "2 * 2 \<le> int (length (m_bond_east_buffer ?e))"
    "2 * 2 \<le> int (length (m_flip_buffer ?e))"
    by (simp_all add: square_def)
  from SW_run_discovers_every_site_once [OF h]
  obtain st where r: "SW_run_state ?e ?l = Some st"
    and one: "\<And>q. inside 2 q \<Longrightarrow> count_list (discovery_log st) q = 1"
    and zero: "\<And>q. \<not> inside 2 q \<Longrightarrow> count_list (discovery_log st) q = 0"
    and fl: "\<And>q. count_list (flip_log st) q \<le> 1"
    by blast
  have "count_list (discovery_log st) (0, 0) = 1" "count_list (discovery_log st) (0, 1) = 1"
    "count_list (discovery_log st) (1, 0) = 1" "count_list (discovery_log st) (1, 1) = 1"
    by (rule one, simp add: inside_def)+
  moreover have "count_list (discovery_log st) (2, 0) = 0"
    by (rule zero) (simp add: inside_def)
  ultimately show ?thesis using r fl [of "(0, 0)"] fl [of "(1, 1)"] by simp
qed

text \<open>C4. For a negative coupling the table is empty: \<^verbatim>\<open>value_count\<close> is \<open>16 * J + 1 < 0\<close>
  and the loop body never runs, although the offset \<^verbatim>\<open>get_exp_buffer_offset\<close> is computed
  for \<open>\<bar>J\<bar>\<close>. At \<open>J = -1\<close> the claimed length is 17 and the claimed entry for \<open>dE = 0\<close> is at
  index 8. (For \<open>0 \<le> J \<le> 134217727\<close> the length and the entries are as claimed:
  \<open>length_get_cached_exp_values\<close>, \<open>nth_get_cached_exp_values\<close>.)\<close>

theorem get_cached_exp_values_negative_J:
  "get_cached_exp_values (- 1) 1 = []
   \<and> length (get_cached_exp_values (- 1) 1) \<noteq> nat (16 * \<bar>- 1\<bar> + 1)
   \<and> at1 (get_cached_exp_values (- 1) 1) (0 + 8 * \<bar>- 1\<bar>) = None"
  by (simp add: get_cached_exp_values_def at1_def int32_def)

text \<open>C5. On square arrays of side \<open>L\<close> and for a site \<open>(x, y)\<close>: in every state of the
  traversal, the third neighbour test puts the south neighbour \<open>(x, (y - 1) mod L)\<close> into the
  deque exactly when the spins are equal, the neighbour is undiscovered and the north flag
  of that neighbour is set, and the fourth does the same for the west neighbour
  \<open>((x - 1) mod L, y)\<close> with the east flag of that neighbour. Site \<open>(x, y)\<close> would admit a
  site \<open>b\<close> exactly when the spins are equal and \<open>b\<close> is the north (east) neighbour with the
  north (east) flag of \<open>(x, y)\<close> set, or the south (west) neighbour with the north (east)
  flag of \<open>b\<close> set; and this relation is symmetric.\<close>

theorem SW_bond_lookup_symmetric:
  assumes "square L lat" and "square L doesBondNorth" and "square L doesBondEast"
    and "inside L (x, y)" and "inside L b"
  shows "(\<forall>st. square L (lattice st) \<and> square L (discovered st) \<longrightarrow>
           (\<exists>s3 s4.
              SW_visit doesBondNorth doesBondEast (x, y) (SW_neighbours L x y ! 2) st = Some s3
            \<and> SW_visit doesBondNorth doesBondEast (x, y) (SW_neighbours L x y ! 3) st = Some s4
            \<and> (if at2 (lattice st) x y = at2 (lattice st) x ((y - 1) mod L)
                   \<and> at2 (discovered st) x ((y - 1) mod L) = Some 0
                   \<and> flag_set (at2 doesBondNorth x ((y - 1) mod L))
                then deq s3 = deq st @ [(x, (y - 1) mod L)] else s3 = st)
            \<and> (if at2 (lattice st) x y = at2 (lattice st) ((x - 1) mod L) y
                   \<and> at2 (discovered st) ((x - 1) mod L) y = Some 0
                   \<and> flag_set (at2 doesBondEast ((x - 1) mod L) y)
                then deq s4 = deq st @ [((x - 1) mod L, y)] else s4 = st)))
       \<and> (SW_admits L doesBondNorth doesBondEast lat (x, y) b \<longleftrightarrow>
            at2 lat x y = at2 lat (fst b) (snd b)
          \<and> (b = (x, (y + 1) mod L) \<and> flag_set (at2 doesBondNorth x y)
           \<or> b = ((x + 1) mod L, y) \<and> flag_set (at2 doesBondEast x y)
           \<or> b = (x, (y - 1) mod L) \<and> flag_set (at2 doesBondNorth x ((y - 1) mod L))
           \<or> b = ((x - 1) mod L, y) \<and> flag_set (at2 doesBondEast ((x - 1) mod L) y)))
       \<and> (SW_admits L doesBondNorth doesBondEast lat (x, y) b
            \<longleftrightarrow> SW_admits L doesBondNorth doesBondEast lat b (x, y))"
proof (intro conjI allI impI)
  from assms(4) have x: "0 \<le> x" "x < L" and y: "0 \<le> y" "y < L" by (simp_all add: inside_def)
  have i: "inside L (x, (y - 1) mod L)" "inside L ((x - 1) mod L, y)"
    using x y by (simp_all add: inside_def)
  have p: "SW_neighbours L x y ! 2 = ((x, (y - 1) mod L), BondNorth, (x, (y - 1) mod L))"
    "SW_neighbours L x y ! 3 = (((x - 1) mod L, y), BondEast, ((x - 1) mod L, y))"
    using wrap_down_mod [OF y] wrap_down_mod [OF x]
    by (simp_all add: SW_neighbours_def numeral_3_eq_3)
  {
    fix st :: SW_state
    assume "square L (lattice st) \<and> square L (discovered st)"
    then have sq: "square L (lattice st)" "square L (discovered st)" by simp_all
    from SW_visit_pushes_iff [OF sq assms(2,3,4) i(1) i(1), of BondNorth]
    obtain s3 where a3: "SW_visit doesBondNorth doesBondEast (x, y)
          ((x, (y - 1) mod L), BondNorth, (x, (y - 1) mod L)) st = Some s3"
      and c3: "if at2 (lattice st) x y = at2 (lattice st) x ((y - 1) mod L)
                   \<and> at2 (discovered st) x ((y - 1) mod L) = Some 0
                   \<and> flag_set (at2 doesBondNorth x ((y - 1) mod L))
                then deq s3 = deq st @ [(x, (y - 1) mod L)] else s3 = st"
      unfolding fst_conv snd_conv Bond.case by blast
    from SW_visit_pushes_iff [OF sq assms(2,3,4) i(2) i(2), of BondEast]
    obtain s4 where a4: "SW_visit doesBondNorth doesBondEast (x, y)
          (((x - 1) mod L, y), BondEast, ((x - 1) mod L, y)) st = Some s4"
      and c4: "if at2 (lattice st) x y = at2 (lattice st) ((x - 1) mod L) y
                   \<and> at2 (discovered st) ((x - 1) mod L) y = Some 0
                   \<and> flag_set (at2 doesBondEast ((x - 1) mod L) y)
                then deq s4 = deq st @ [((x - 1) mod L, y)] else s4 = st"
      unfolding fst_conv snd_conv Bond.case by blast
    show "\<exists>s3 s4.
              SW_visit doesBondNorth doesBondEast (x, y) (SW_neighbours L x y ! 2) st = Some s3
            \<and> SW_visit doesBondNorth doesBondEast (x, y) (SW_neighbours L x y ! 3) st = Some s4
            \<and> (if at2 (lattice st) x y = at2 (lattice st) x ((y - 1) mod L)
                   \<and> at2 (discovered st) x ((y - 1) mod L) = Some 0
                   \<and> flag_set (at2 doesBondNorth x ((y - 1) mod L))
                then deq s3 = deq st @ [(x, (y - 1) mod L)] else s3 = st)
            \<and> (if at2 (lattice st) x y = at2 (lattice st) ((x - 1) mod L) y
                   \<and> at2 (discovered st) ((x - 1) mod L) y = Some 0
                   \<and> flag_set (at2 doesBondEast ((x - 1) mod L) y)
                then deq s4 = deq st @ [((x - 1) mod L, y)] else s4 = st)"
      unfolding p
    proof (intro exI conjI)
      show "SW_visit doesBondNorth doesBondEast (x, y)
          ((x, (y - 1) mod L), BondNorth, (x, (y - 1) mod L)) st = Some s3" by (rule a3)
      show "SW_visit doesBondNorth doesBondEast (x, y)
          (((x - 1) mod L, y), BondEast, ((x - 1) mod L, y)) st = Some s4" by (rule a4)
    qed (rule c3, rule c4)
  }
  show "SW_admits L doesBondNorth doesBondEast lat (x, y) b \<longleftrightarrow>
            at2 lat x y = at2 lat (fst b) (snd b)
          \<and> (b = (x, (y + 1) mod L) \<and> flag_set (at2 doesBondNorth x y)
           \<or> b = ((x + 1) mod L, y) \<and> flag_set (at2 doesBondEast x y)
           \<or> b = (x, (y - 1) mod L) \<and> flag_set (at2 doesBondNorth x ((y - 1) mod L))
           \<or> b = ((x - 1) mod L, y) \<and> flag_set (at2 doesBondEast ((x - 1) mod L) y))"
    by (rule SW_admits_iff [OF assms])
  show "SW_admits L doesBondNorth doesBondEast lat (x, y) b
            \<longleftrightarrow> SW_admits L doesBondNorth doesBondEast lat b (x, y)"
    using SW_admits_sym_imp [OF assms(1,2,3,4,5)] SW_admits_sym_imp [OF assms(1,2,3,5,4)]
    by blast
qed

theorem SW_bond_lookup_symmetric_witness:
  "square 3 [[1, 1, 1], [1, 1, 1], [1, 1, 1 :: 8 word]]
   \<and> square 3 [[0, 0, 1], [0, 0, 0], [0, 0, 0 :: 8 word]]
   \<and> square 3 [[0, 0, 0], [0, 0, 0], [0, 0, 0 :: 8 word]]
   \<and> inside 3 (0, 0) \<and> inside 3 (0, 2)
   \<and> (\<exists>s3 s4.
         SW_visit [[0, 0, 1], [0, 0, 0], [0, 0, 0]] [[0, 0, 0], [0, 0, 0], [0, 0, 0]] (0, 0)
           (SW_neighbours 3 0 0 ! 2) (SW_fresh 3 [[1, 1, 1], [1, 1, 1], [1, 1, 1]]) = Some s3
       \<and> SW_visit [[0, 0, 1], [0, 0, 0], [0, 0, 0]] [[0, 0, 0], [0, 0, 0], [0, 0, 0]] (0, 0)
           (SW_neighbours 3 0 0 ! 3) (SW_fresh 3 [[1, 1, 1], [1, 1, 1], [1, 1, 1]]) = Some s4
       \<and> deq s3 = [(0, 2)] \<and> s4 = SW_fresh 3 [[1, 1, 1], [1, 1, 1], [1, 1, 1]])
   \<and> SW_admits 3 [[0, 0, 1], [0, 0, 0], [0, 0, 0]] [[0, 0, 0], [0, 0, 0], [0, 0, 0]]
        [[1, 1, 1], [1, 1, 1], [1, 1, 1]] (0, 0) (0, 2)
   \<and> SW_admits 3 [[0, 0, 1], [0, 0, 0], [0, 0, 0]] [[0, 0, 0], [0, 0, 0], [0, 0, 0]]
        [[1, 1, 1], [1, 1, 1], [1, 1, 1]] (0, 2) (0, 0)"
proof -
  let ?lat = "[[1, 1, 1], [1, 1, 1], [1, 1, 1]] :: LatticeType"
  let ?bn = "[[0, 0, 1], [0, 0, 0], [0, 0, 0]] :: LatticeType"
  let ?be = "[[0, 0, 0], [0, 0, 0], [0, 0, 0]] :: LatticeType"
  have h: "square 3 ?lat" "square 3 ?bn" "square 3 ?be" "inside 3 (0, 0)" "inside 3 (0, 2)"
    by (simp_all add: square_def inside_def)
  have f: "square 3 (lattice (SW_fresh 3 ?lat)) \<and> square 3 (discovered (SW_fresh 3 ?lat))"
    by (simp add: SW_fresh_def square_def numeral_3_eq_3)
  have v: "at2 (lattice (SW_fresh 3 ?lat)) 0 0 = Some 1" "at2 (lattice (SW_fresh 3 ?lat)) 0 2 = Some 1"
    "at2 (lattice (SW_fresh 3 ?lat)) 2 0 = Some 1"
    "at2 (discovered (SW_fresh 3 ?lat)) 0 2 = Some 0" "at2 (discovered (SW_fresh 3 ?lat)) 2 0 = Some 0"
    "flag_set (at2 ?bn 0 2)" "\<not> flag_set (at2 ?be 2 0)"
    "at2 ?lat 0 0 = Some 1" "at2 ?lat 0 2 = Some 1" "deq (SW_fresh 3 ?lat) = []"
    by (simp_all add: SW_fresh_def at2_def at1_def flag_set_def numeral_3_eq_3)
  let ?S = "SW_fresh 3 ?lat"
  have m: "(0 - 1) mod 3 = (2::int)" by simp
  note t = SW_bond_lookup_symmetric [OF h]
  from t f have "\<exists>s3 s4.
         SW_visit ?bn ?be (0, 0) (SW_neighbours 3 0 0 ! 2) ?S = Some s3
       \<and> SW_visit ?bn ?be (0, 0) (SW_neighbours 3 0 0 ! 3) ?S = Some s4
       \<and> (if at2 (lattice ?S) 0 0 = at2 (lattice ?S) 0 ((0 - 1) mod 3)
              \<and> at2 (discovered ?S) 0 ((0 - 1) mod 3) = Some 0
              \<and> flag_set (at2 ?bn 0 ((0 - 1) mod 3))
           then deq s3 = deq ?S @ [(0, (0 - 1) mod 3)] else s3 = ?S)
       \<and> (if at2 (lattice ?S) 0 0 = at2 (lattice ?S) ((0 - 1) mod 3) 0
              \<and> at2 (discovered ?S) ((0 - 1) mod 3) 0 = Some 0
              \<and> flag_set (at2 ?be ((0 - 1) mod 3) 0)
           then deq s4 = deq ?S @ [((0 - 1) mod 3, 0)] else s4 = ?S)"
    by blast
  then obtain s3 s4 where
    a3: "SW_visit ?bn ?be (0, 0) (SW_neighbours 3 0 0 ! 2) ?S = Some s3"
    and a4: "SW_visit ?bn ?be (0, 0) (SW_neighbours 3 0 0 ! 3) ?S = Some s4"
    and c3: "if at2 (lattice ?S) 0 0 = at2 (lattice ?S) 0 ((0 - 1) mod 3)
              \<and> at2 (discovered ?S) 0 ((0 - 1) mod 3) = Some 0
              \<and> flag_set (at2 ?bn 0 ((0 - 1) mod 3))
           then deq s3 = deq ?S @ [(0, (0 - 1) mod 3)] else s3 = ?S"
    and c4: "if at2 (lattice ?S) 0 0 = at2 (lattice ?S) ((0 - 1) mod 3) 0
              \<and> at2 (discovered ?S) ((0 - 1) mod 3) 0 = Some 0
              \<and> flag_set (at2 ?be ((0 - 1) mod 3) 0)
           then deq s4 = deq ?S @ [((0 - 1) mod 3, 0)] else s4 = ?S"
    by blast
  have d3: "deq s3 = [(0, 2)]" using c3 v unfolding m by simp
  have d4: "s4 = ?S" using c4 v(7) unfolding m by simp
  have 4: "\<exists>s3 s4.
         SW_visit ?bn ?be (0, 0) (SW_neighbours 3 0 0 ! 2) ?S = Some s3
       \<and> SW_visit ?bn ?be (0, 0) (SW_neighbours 3 0 0 ! 3) ?S = Some s4
       \<and> deq s3 = [(0, 2)] \<and> s4 = ?S"
    using a3 a4 d3 d4 by blast
  note t2 = t [THEN conjunct2, THEN conjunct1]
  note t3 = t [THEN conjunct2, THEN conjunct2]
  have 5: "SW_admits 3 ?bn ?be ?lat (0, 0) (0, 2)"
    unfolding t2 using v(6,8,9) by (simp add: m)
  then have 6: "SW_admits 3 ?bn ?be ?lat (0, 2) (0, 0)" using t3 by simp
  show ?thesis using h 4 5 6 by (intro conjI)
qed

text \<open>C6. The freeze probability is \<open>1 - exp (-2J/T)\<close>, and after the first phase of
  \<^verbatim>\<open>SW::run\<close> the north (east) flag of the site at row-major position \<open>i * L + j\<close> is set
  exactly when the value of the north (east) buffer at that position is strictly below
  that probability.\<close>

theorem SW_bond_flags:
  assumes "0 < m_T e" and "0 \<le> L"
    and "L * L \<le> int (length (m_bond_north_buffer e))"
    and "L * L \<le> int (length (m_bond_east_buffer e))"
  shows "freezeProbability e = 1 - exp (- 2 * real_of_int (SW_engine.m_J e) / m_T e)
    \<and> (\<exists>doesBondNorth doesBondEast. SW_bonds e L = Some (doesBondNorth, doesBondEast)
        \<and> (\<forall>i j. inside L (i, j) \<longrightarrow>
              (\<exists>n ea. at2 doesBondNorth i j = Some n \<and> at2 doesBondEast i j = Some ea
                 \<and> (n \<noteq> 0 \<longleftrightarrow> m_bond_north_buffer e ! nat (i * L + j)
                        < 1 - exp (- 2 * real_of_int (SW_engine.m_J e) / m_T e))
                 \<and> (ea \<noteq> 0 \<longleftrightarrow> m_bond_east_buffer e ! nat (i * L + j)
                        < 1 - exp (- 2 * real_of_int (SW_engine.m_J e) / m_T e)))))"
proof -
  from SW_bonds_total [OF assms(2,3,4)] obtain bn be where
    r: "SW_bonds e L = Some (bn, be)"
    and b: "\<And>q. inside L q \<Longrightarrow>
          bond_set L (freezeProbability e) (m_bond_north_buffer e) bn q
        \<and> bond_set L (freezeProbability e) (m_bond_east_buffer e) be q"
    by blast
  have "\<exists>n ea. at2 bn i j = Some n \<and> at2 be i j = Some ea
                 \<and> (n \<noteq> 0 \<longleftrightarrow> m_bond_north_buffer e ! nat (i * L + j) < freezeProbability e)
                 \<and> (ea \<noteq> 0 \<longleftrightarrow> m_bond_east_buffer e ! nat (i * L + j) < freezeProbability e)"
    if "inside L (i, j)" for i j
    using b [OF that] by (simp add: bond_set_def)
  then show ?thesis using r unfolding freezeProbability_def by blast
qed

theorem SW_bond_flags_witness:
  "\<exists>doesBondNorth doesBondEast n ea.
      SW_bonds \<lparr>m_J = 1, m_T = 2, m_bond_north_buffer = [0.1, 0.9, 0.2, 0.8],
            m_bond_east_buffer = [0.7, 0.3, 0.6, 0.4], m_flip_buffer = [0.4, 0.6, 0.1, 0.9]\<rparr> 2
        = Some (doesBondNorth, doesBondEast)
    \<and> at2 doesBondNorth 1 0 = Some n \<and> at2 doesBondEast 1 0 = Some ea
    \<and> (n \<noteq> 0) = (0.2 < 1 - exp (- 2 * 1 / 2 :: real))
    \<and> (ea \<noteq> 0) = (0.6 < 1 - exp (- 2 * 1 / 2 :: real))"
proof -
  let ?sw = "\<lparr>m_J = 1, m_T = 2, m_bond_north_buffer = [0.1, 0.9, 0.2, 0.8],
            m_bond_east_buffer = [0.7, 0.3, 0.6, 0.4], m_flip_buffer = [0.4, 0.6, 0.1, 0.9]\<rparr>"
  have h: "0 < m_T ?sw" "(0::int) \<le> 2" "2 * 2 \<le> int (length (m_bond_north_buffer ?sw))"
    "2 * 2 \<le> int (length (m_bond_east_buffer ?sw))"
    by simp_all
  from SW_bond_flags [OF h] obtain bn be where r: "SW_bonds ?sw 2 = Some (bn, be)"
    and a: "\<And>i j. inside 2 (i, j) \<Longrightarrow>
              (\<exists>n ea. at2 bn i j = Some n \<and> at2 be i j = Some ea
                 \<and> (n \<noteq> 0 \<longleftrightarrow> m_bond_north_buffer ?sw ! nat (i * 2 + j)
                        < 1 - exp (- 2 * real_of_int (SW_engine.m_J ?sw) / m_T ?sw))
                 \<and> (ea \<noteq> 0 \<longleftrightarrow> m_bond_east_buffer ?sw ! nat (i * 2 + j)
                        < 1 - exp (- 2 * real_of_int (SW_engine.m_J ?sw) / m_T ?sw)))"
    by blast
  have "inside 2 (1, 0)" by (simp add: inside_def)
  from a [OF this] r show ?thesis by simp
qed



text \<open>C8, amended. Over the double format, with any rounding that is idempotent and keeps
  zero: for a one-element list whose element \<open>v\<close> is a finite double and whose rounded
  square does not overflow, \<^verbatim>\<open>get_variance\<close> returns exactly 0.\<close>

theorem get_variance_double_singleton:
  assumes "rnd 0 = 0" and "\<forall>x. rnd (rnd x) = rnd x"
    and "rnd v = v" and "\<bar>v\<bar> \<le> DBL_MAX" and "\<bar>rnd (v * v)\<bar> \<le> DBL_MAX"
  shows "get_variance_double rnd [Finite v] = Finite 0"
proof -
  let ?w = "rnd (v * v)"
  have v: "to_double rnd v = Finite v"
    using assms(3,4) by (rule to_double_in_range)
  have w: "to_double rnd (v * v) = Finite ?w"
    using refl assms(5) by (rule to_double_in_range)
  have ww: "to_double rnd ?w = Finite ?w"
    using assms(2) assms(5) by (intro to_double_in_range) simp_all
  have z: "to_double rnd 0 = Finite 0"
    using assms(1) DBL_MAX_pos by (intro to_double_in_range) simp_all
  have mean: "get_mean_double rnd [Finite v] = Finite v"
    by (simp add: get_mean_double_def v)
  have sq: "get_squared_mean_double rnd [Finite v] = Finite ?w"
    by (simp add: get_squared_mean_double_def w ww)
  show ?thesis
    by (simp add: get_variance_double_def mean sq w dsub_def z)
qed

theorem get_variance_double_singleton_witness:
  "id 0 = (0::real) \<and> id 3 = (3::real) \<and> \<bar>3\<bar> \<le> DBL_MAX \<and> \<bar>id (3 * 3)\<bar> \<le> DBL_MAX
   \<and> get_variance_double id [Finite 3] = Finite 0"
proof -
  have "(3::real) \<le> 2 ^ 1023" "(9::real) \<le> 2 ^ 1023"
    using power_increasing [of 4 1023 "2::real"] by simp_all
  then have b: "\<bar>3\<bar> \<le> DBL_MAX" "\<bar>id (3 * 3)\<bar> \<le> DBL_MAX"
    using DBL_MAX_bounds(1) by simp_all
  have "get_variance_double id [Finite 3] = Finite 0"
    using b by (intro get_variance_double_singleton) simp_all
  then show ?thesis using b by simp
qed

text \<open>C8 as stated fails where the square overflows: for the one-element list of \<open>2\<^sup>6\<^sup>0\<^sup>0\<close> the
  square is \<open>+\<infinity>\<close>, both the mean of the squares and the squared mean are \<open>+\<infinity>\<close>, and
  their difference is NaN.\<close>

theorem get_variance_double_overflow:
  "get_variance_double id [Finite (2 ^ 600)] = NaN"
proof (rule get_variance_double_singleton_overflow)
  show "id ((2::real) ^ 600) = 2 ^ 600" by (rule id_apply)
  have "(2::real) ^ 600 \<le> 2 ^ 1023" by (rule power_increasing) simp_all
  then have "(2::real) ^ 600 \<le> DBL_MAX" using DBL_MAX_bounds(1) by (rule order_trans)
  moreover have "(0::real) \<le> 2 ^ 600" by (rule zero_le_power) simp
  ultimately show "\<bar>(2::real) ^ 600\<bar> \<le> DBL_MAX" by (simp only: abs_of_nonneg)
  have "(2::real) ^ 600 * 2 ^ 600 = 2 ^ (600 + 600)" by (rule power_add [symmetric])
  moreover have "(2::real) ^ 1024 \<le> 2 ^ (600 + 600)" by (rule power_increasing) simp_all
  ultimately have "DBL_MAX < (2::real) ^ 600 * 2 ^ 600"
    using DBL_MAX_bounds(2) by (simp only: less_le_trans)
  then show "DBL_MAX < id ((2::real) ^ 600 * 2 ^ 600)" by (simp only: id_apply)
qed

text \<open>C9. Whatever \<^verbatim>\<open>Metropolis::run\<close> or \<^verbatim>\<open>SW::run\<close> returns on a lattice of spins has as
  many rows, rows of the same lengths, and spins only.\<close>

theorem engines_keep_shape_and_spins:
  assumes "pm1 grid"
  shows "(\<forall>grid'. Metropolis_run e dE_fun grid = Some grid' \<longrightarrow>
            length grid' = length grid \<and> map length grid' = map length grid \<and> pm1 grid')
       \<and> (\<forall>grid'. SW_run sw grid = Some grid' \<longrightarrow>
            length grid' = length grid \<and> map length grid' = map length grid \<and> pm1 grid')"
proof (intro conjI allI impI)
  have k: "keeps grid grid" using assms by (simp add: keeps_def)
  {
    fix grid'
    assume "Metropolis_run e dE_fun grid = Some grid'"
    from Metropolis_run_keeps [OF this k]
    show "length grid' = length grid" "map length grid' = map length grid" "pm1 grid'"
      by (simp_all add: keeps_def)
  }
  {
    fix grid'
    assume "SW_run sw grid = Some grid'"
    then obtain st where "SW_run_state sw grid = Some st" and "grid' = lattice st"
      by (auto simp: SW_run_def)
    with SW_run_state_keeps [OF _ assms]
    show "length grid' = length grid" "map length grid' = map length grid" "pm1 grid'"
      by (simp_all add: keeps_def)
  }
qed

theorem engines_keep_shape_and_spins_witness:
  "pm1 [[1, 1], [1, - 1]]
   \<and> (\<exists>grid'. Metropolis_run \<lparr>m_cached_exp_values = replicate 17 (1 / 2), m_J = 1,
          m_lattice_index_buffer = [(0, 0), (1, 1), (0, 1), (0, 0)],
          m_random_buffer = [0.3, 0.6, 0.4, 0.7]\<rparr> get_dE [[1, 1], [1, - 1]] = Some grid'
        \<and> length grid' = 2 \<and> map length grid' = [2, 2] \<and> pm1 grid')
   \<and> (\<exists>grid'. SW_run \<lparr>m_J = 1, m_T = 2, m_bond_north_buffer = [0.1, 0.9, 0.2, 0.8],
          m_bond_east_buffer = [0.7, 0.3, 0.6, 0.4], m_flip_buffer = [0.4, 0.6, 0.1, 0.9]\<rparr>
          [[1, 1], [1, - 1]] = Some grid'
        \<and> length grid' = 2 \<and> map length grid' = [2, 2] \<and> pm1 grid')"
proof -
  let ?g = "[[1, 1], [1, - 1]] :: LatticeType"
  let ?e = "\<lparr>m_cached_exp_values = replicate 17 (1 / 2), m_J = 1,
          m_lattice_index_buffer = [(0, 0), (1, 1), (0, 1), (0, 0)],
          m_random_buffer = [0.3, 0.6, 0.4, 0.7]\<rparr>"
  let ?sw = "\<lparr>m_J = 1, m_T = 2, m_bond_north_buffer = [0.1, 0.9, 0.2, 0.8],
          m_bond_east_buffer = [0.7, 0.3, 0.6, 0.4], m_flip_buffer = [0.4, 0.6, 0.1, 0.9]\<rparr>"
  have p: "pm1 ?g" by (simp add: pm1_def)
  have m: "Metropolis_run ?e get_dE ?g = Some [[1, - 1], [1, 1]]" by code_simp
  have "\<exists>st. SW_run_state ?sw ?g = Some st"
    using SW_run_state_total [of ?g ?sw] by (auto simp: square_def)
  then obtain grid2 where sw: "SW_run ?sw ?g = Some grid2" by (auto simp: SW_run_def)
  from engines_keep_shape_and_spins [OF p, of ?e get_dE ?sw] m sw
  have "length [[1, - 1], [1, 1 :: 8 word]] = length ?g \<and> map length [[1, - 1], [1, 1 :: 8 word]] = map length ?g
      \<and> pm1 [[1, - 1], [1, 1]]"
    and "length grid2 = length ?g \<and> map length grid2 = map length ?g \<and> pm1 grid2"
    by blast+
  then show ?thesis using p m sw by simp
qed

text \<open>C10, amended. For an engine constructed with \<open>1 \<le> J \<le> 134217727\<close> (so that the number
  of entries \<open>16J + 1\<close> fits an \<^verbatim>\<open>int\<close>) and a value \<open>g\<close> of \<^verbatim>\<open>get_dE\<close> in \<open>[-8, 8]\<close>, the index
  \<open>dE + buffer_offset\<close> of the table access of \<^verbatim>\<open>Metropolis::run\<close> lies in \<open>[0, 16J]\<close>, inside
  the table, and the entry there is \<open>exp (-dE/T)\<close>.\<close>

theorem Metropolis_lookup_in_bounds:
  assumes "1 \<le> J" and "J \<le> 134217727" and "- 8 \<le> g" and "g \<le> 8"
    and "e = Metropolis_new J T lattice_indices randoms"
    and "dE = Metropolis_engine.m_J e * g"
    and "buffer_offset = get_exp_buffer_offset (Metropolis_engine.m_J e)"
  shows "0 \<le> dE + buffer_offset \<and> dE + buffer_offset \<le> 16 * J
       \<and> dE + buffer_offset < int (length (m_cached_exp_values e))
       \<and> at1 (m_cached_exp_values e) (dE + buffer_offset) = Some (exp (- real_of_int dE / T))"
proof -
  have J: "Metropolis_engine.m_J e = J" and t: "m_cached_exp_values e = get_cached_exp_values J T"
    using assms(5) by (simp_all add: Metropolis_new_def)
  have off: "buffer_offset = 8 * J" using assms(1,7) J by (simp add: get_exp_buffer_offset_def)
  have "- 8 * J \<le> J * g" using assms(1,3) mult_left_mono [of "- 8" g J] by (simp add: mult.commute)
  moreover have "J * g \<le> 8 * J" using assms(1,4) mult_left_mono [of g 8 J] by (simp add: mult.commute)
  ultimately have b: "0 \<le> dE + buffer_offset" "dE + buffer_offset \<le> 16 * J"
    using assms(6) J off by simp_all
  have "length (get_cached_exp_values J T) = nat (16 * J + 1)"
    using assms(1,2) by (intro length_get_cached_exp_values) simp_all
  then have len: "dE + buffer_offset < int (length (m_cached_exp_values e))"
    using b assms(1) by (simp add: t)
  have "at1 (m_cached_exp_values e) (dE + buffer_offset)
      = Some (exp (- real_of_int (dE + buffer_offset - get_exp_buffer_offset J) / T))"
    unfolding t by (rule nth_get_cached_exp_values [OF b assms(2)])
  then show ?thesis using b len assms(7) J by simp
qed

theorem Metropolis_lookup_in_bounds_witness:
  "(1::int) \<le> 1 \<and> (1::int) \<le> 134217727 \<and> (- 8::int) \<le> 8 \<and> (8::int) \<le> 8
   \<and> (0::int) \<le> 1 * 8 + get_exp_buffer_offset 1 \<and> 1 * 8 + get_exp_buffer_offset 1 \<le> 16 * 1
   \<and> 1 * 8 + get_exp_buffer_offset 1
        < int (length (m_cached_exp_values (Metropolis_new 1 2 [(0, 0)] [0.5])))
   \<and> at1 (m_cached_exp_values (Metropolis_new 1 2 [(0, 0)] [0.5])) (1 * 8 + get_exp_buffer_offset 1)
        = Some (exp (- real_of_int (1 * 8) / 2))"
  using Metropolis_lookup_in_bounds [of 1 8 "Metropolis_new 1 2 [(0, 0)] [0.5]" 2 "[(0, 0)]"
      "[0.5]" "1 * 8" "get_exp_buffer_offset 1"]
  by (simp add: Metropolis_new_def)

text \<open>C10 as stated fails for a large coupling: at \<open>J = 2\<^sup>2\<^sup>7\<close> the \<^verbatim>\<open>int\<close> \<^verbatim>\<open>value_count\<close> wraps to
  a negative number, the table is empty, and the access for \<open>g = 4\<close> (where \<open>dE > 0\<close>) is out
  of its bounds.\<close>

theorem Metropolis_lookup_out_of_bounds:
  "(1::int) \<le> 134217728 \<and> (- 8::int) \<le> 4 \<and> (4::int) \<le> 8
   \<and> m_cached_exp_values (Metropolis_new 134217728 1 [] []) = []
   \<and> at1 (m_cached_exp_values (Metropolis_new 134217728 1 [] []))
        (Metropolis_engine.m_J (Metropolis_new 134217728 1 [] []) * 4
           + get_exp_buffer_offset (Metropolis_engine.m_J (Metropolis_new 134217728 1 [] [])))
       = None"
  by (simp add: Metropolis_new_def get_cached_exp_values_def int32_def at1_def)

end
